theory Spec2Isabelle
  imports Complex_Main
begin

section \<open>Interval products (\<^verbatim>\<open>odl/space/domain.py\<close>)\<close>

subsection \<open>Array entries\<close>

text \<open>
  The entries of \<^verbatim>\<open>begin\<close> and \<^verbatim>\<open>end\<close> are \<^verbatim>\<open>float64\<close> values.  An entry
  is modelled as a real number or one of the three special values.  The operations on the
  special values are those of IEEE 754 (every comparison with NaN is false except
  \<^verbatim>\<open>!=\<close>); the result of an operation on two finite values is the exact result rounded
  to \<^verbatim>\<open>float64\<close> by \<open>round64\<close>: to the nearest value with a 53-bit significand, ties to
  the even significand, with gradual underflow below \<open>2^(-1022)\<close> and overflow to an
  infinity from \<open>2^1024\<close> on.  The sign of zero is not part of this model.
\<close>

datatype fl = Fin real | PInf | NInf | NaN

fun fl_le :: "fl \<Rightarrow> fl \<Rightarrow> bool" where
  "fl_le NaN y = False"
| "fl_le x NaN = False"
| "fl_le NInf y = True"
| "fl_le x PInf = True"
| "fl_le (Fin a) (Fin b) = (a \<le> b)"
| "fl_le x y = False"

fun fl_lt :: "fl \<Rightarrow> fl \<Rightarrow> bool" where
  "fl_lt NaN y = False"
| "fl_lt x NaN = False"
| "fl_lt (Fin a) (Fin b) = (a < b)"
| "fl_lt NInf NInf = False"
| "fl_lt NInf y = True"
| "fl_lt PInf y = False"
| "fl_lt x PInf = True"
| "fl_lt x NInf = False"

definition fl_gt :: "fl \<Rightarrow> fl \<Rightarrow> bool" where
  "fl_gt x y = fl_lt y x"

definition fl_eq :: "fl \<Rightarrow> fl \<Rightarrow> bool" where
  \<comment> \<open>\<^verbatim>\<open>x == y\<close>\<close>
  "fl_eq x y = (x \<noteq> NaN \<and> y \<noteq> NaN \<and> x = y)"

definition fl_ne :: "fl \<Rightarrow> fl \<Rightarrow> bool" where
  \<comment> \<open>\<^verbatim>\<open>x != y\<close>\<close>
  "fl_ne x y = (\<not> fl_eq x y)"

definition rne :: "real \<Rightarrow> int" where
  \<comment> \<open>the nearest integer, a tie going to the even one\<close>
  "rne r =
     (let f = \<lfloor>r\<rfloor>; d = r - of_int f
      in if d < 1 / 2 then f else if 1 / 2 < d then f + 1 else if even f then f else f + 1)"

fun binade_below :: "nat \<Rightarrow> real \<Rightarrow> int" where
  \<comment> \<open>the largest exponent \<open>e\<close> with \<open>- 1022 \<le> e < n - 1022\<close> and \<open>2^e \<le> a\<close>, and \<open>- 1022\<close> if
      there is none\<close>
  "binade_below 0 a = - 1022"
| "binade_below (Suc n) a =
     (if 2 powi (int n - 1022) \<le> a then int n - 1022 else binade_below n a)"

definition binade :: "real \<Rightarrow> int" where
  \<comment> \<open>the exponent of the \<^verbatim>\<open>float64\<close> binade of a magnitude: from \<open>- 1022\<close> (which the
      subnormal numbers share) to \<open>1023\<close>\<close>
  "binade a = binade_below 2046 a"

definition round64 :: "real \<Rightarrow> fl" where
  \<comment> \<open>round to nearest, ties to even: \<open>u\<close> is the unit in the last place of the binade\<close>
  "round64 x =
     (let u = 2 powi (binade \<bar>x\<bar> - 52); y = of_int (rne (x / u)) * u
      in if 2 ^ 1024 \<le> \<bar>y\<bar> then (if 0 < x then PInf else NInf) else Fin y)"

definition is_f64 :: "fl \<Rightarrow> bool" where
  \<comment> \<open>the entry is a \<^verbatim>\<open>float64\<close> value: rounding leaves it as it is\<close>
  "is_f64 x = (case x of Fin r \<Rightarrow> round64 r = Fin r | _ \<Rightarrow> True)"

definition fl_inf_of :: "real \<Rightarrow> fl" where
  \<comment> \<open>the infinity with the sign of \<open>s\<close>; NaN when \<open>s\<close> is zero\<close>
  "fl_inf_of s = (if 0 < s then PInf else if s < 0 then NInf else NaN)"

fun fl_neg :: "fl \<Rightarrow> fl" where
  "fl_neg (Fin a) = Fin (- a)"
| "fl_neg PInf = NInf"
| "fl_neg NInf = PInf"
| "fl_neg NaN = NaN"

fun fl_add :: "fl \<Rightarrow> fl \<Rightarrow> fl" where
  "fl_add NaN y = NaN"
| "fl_add x NaN = NaN"
| "fl_add (Fin a) (Fin b) = round64 (a + b)"
| "fl_add PInf NInf = NaN"
| "fl_add NInf PInf = NaN"
| "fl_add PInf y = PInf"
| "fl_add NInf y = NInf"
| "fl_add x PInf = PInf"
| "fl_add x NInf = NInf"

definition fl_sub :: "fl \<Rightarrow> fl \<Rightarrow> fl" where
  "fl_sub x y = fl_add x (fl_neg y)"

fun fl_mul :: "fl \<Rightarrow> fl \<Rightarrow> fl" where
  "fl_mul NaN y = NaN"
| "fl_mul x NaN = NaN"
| "fl_mul (Fin a) (Fin b) = round64 (a * b)"
| "fl_mul (Fin a) PInf = fl_inf_of a"
| "fl_mul (Fin a) NInf = fl_inf_of (- a)"
| "fl_mul PInf (Fin b) = fl_inf_of b"
| "fl_mul NInf (Fin b) = fl_inf_of (- b)"
| "fl_mul PInf PInf = PInf"
| "fl_mul NInf NInf = PInf"
| "fl_mul PInf NInf = NInf"
| "fl_mul NInf PInf = NInf"

fun fl_div :: "fl \<Rightarrow> fl \<Rightarrow> fl" where
  "fl_div NaN y = NaN"
| "fl_div x NaN = NaN"
| "fl_div (Fin a) (Fin b) = (if b = 0 then fl_inf_of a else round64 (a / b))"
| "fl_div (Fin a) y = Fin 0"
| "fl_div PInf (Fin b) = (if 0 \<le> b then PInf else NInf)"
| "fl_div NInf (Fin b) = (if 0 \<le> b then NInf else PInf)"
| "fl_div x y = NaN"

fun fl_abs :: "fl \<Rightarrow> fl" where
  "fl_abs (Fin a) = Fin \<bar>a\<bar>"
| "fl_abs PInf = PInf"
| "fl_abs NInf = PInf"
| "fl_abs NaN = NaN"

definition fl_isinf :: "fl \<Rightarrow> bool" where
  "fl_isinf x = (x = PInf \<or> x = NInf)"

fun fl_isfinite :: "fl \<Rightarrow> bool" where
  "fl_isfinite (Fin a) = True"
| "fl_isfinite x = False"

definition of_int64 :: "int \<Rightarrow> fl" where
  \<comment> \<open>an \<^verbatim>\<open>int64\<close> entry used in float arithmetic\<close>
  "of_int64 n = round64 (of_int n)"

definition wrap64 :: "int \<Rightarrow> int" where
  \<comment> \<open>the \<^verbatim>\<open>int64\<close> value with the same low 64 bits\<close>
  "wrap64 n = (n + 2 ^ 63) mod 2 ^ 64 - 2 ^ 63"

subsection \<open>The numpy operations used by the class\<close>

definition np_where :: "bool list \<Rightarrow> nat list" where
  \<comment> \<open>\<^verbatim>\<open>np.where(mask)[0]\<close>: the positions of the true entries, ascending\<close>
  "np_where bs = filter (\<lambda>i. bs ! i) [0..<length bs]"

definition np_all :: "bool list \<Rightarrow> bool" where
  "np_all bs = list_all (\<lambda>x. x) bs"

definition np_any :: "bool list \<Rightarrow> bool" where
  "np_any bs = list_ex (\<lambda>x. x) bs"

definition take_idx :: "'a list \<Rightarrow> nat list \<Rightarrow> 'a list" where
  \<comment> \<open>\<^verbatim>\<open>a[idx]\<close> for an index array; every use below has its indices in range\<close>
  "take_idx a idx = map (\<lambda>i. a ! i) idx"

definition np_prod :: "fl list \<Rightarrow> fl" where
  \<comment> \<open>\<^verbatim>\<open>np.prod\<close>: the empty product is 1.0\<close>
  "np_prod xs = foldl fl_mul (Fin 1) xs"

subsection \<open>Errors\<close>

text \<open>
  One constructor for each \<^verbatim>\<open>raise\<close> of the class (named as in the specification's
  taxonomy), and one for each exception that numpy or Python raises inside the methods:
  the failure of broadcasting, reading entry 0 of an empty array, indexing with an array
  that is not of integers, and converting an integer that \<^verbatim>\<open>int64\<close> cannot take.
\<close>

datatype error =
    DimensionMismatch
  | OrderingViolation
  | LengthMismatch
  | IndexOutOfRange
  | ValueOutOfBounds
  | UnboundedDomain
  | ShapeMismatch
  | NonPositiveCount
  | DegenerateOversample
  | BroadcastError
  | EmptyIndexError
  | NonIntegerIndex
  | Int64Overflow

datatype py_exception = ValueError | IndexError | OverflowError

fun exception_of :: "error \<Rightarrow> py_exception" where
  "exception_of IndexOutOfRange = IndexError"
| "exception_of EmptyIndexError = IndexError"
| "exception_of NonIntegerIndex = IndexError"
| "exception_of Int64Overflow = OverflowError"
| "exception_of e = ValueError"

subsection \<open>The class \<^verbatim>\<open>IntervalProd\<close>\<close>

record box =
  box_begin :: "fl list"
  box_end :: "fl list"
  ideg :: "nat list"
  inondeg :: "nat list"

definition IntervalProd :: "fl list \<Rightarrow> fl list \<Rightarrow> error + box" where
  \<comment> \<open>\<^verbatim>\<open>__init__\<close>; a scalar argument is the list of length one\<close>
  "IntervalProd bg en =
     (if length bg \<noteq> length en then Inl DimensionMismatch
      else if \<not> np_all (map2 fl_le bg en) then Inl OrderingViolation
      else Inr \<lparr>box_begin = bg, box_end = en,
                ideg = np_where (map2 fl_eq bg en),
                inondeg = np_where (map2 fl_ne bg en)\<rparr>)"

definition dim_ip :: "box \<Rightarrow> nat" where
  "dim_ip self = length (box_begin self)"

definition truedim :: "box \<Rightarrow> nat" where
  "truedim self = length (inondeg self)"

definition size_ip :: "box \<Rightarrow> fl list" where
  "size_ip self = map2 fl_sub (box_end self) (box_begin self)"

function measure_ip :: "box \<Rightarrow> int option \<Rightarrow> fl" where
  "measure_ip self d =
     (if truedim self = 0 then Fin 0
      else case d of
        None \<Rightarrow> measure_ip self (Some (int (truedim self)))
      | Some k \<Rightarrow>
          if k < int (truedim self) then PInf
          else if k > int (truedim self) then Fin 0
          else np_prod (take_idx (map2 fl_sub (box_end self) (box_begin self)) (inondeg self)))"
  by pat_completeness auto
termination
  by (relation "measure (\<lambda>(self, d). case d of None \<Rightarrow> 1 | Some k \<Rightarrow> 0)") auto

definition volume :: "box \<Rightarrow> fl" where
  "volume self = measure_ip self (Some (int (dim_ip self)))"

datatype scalar_or_array = Scalar fl | Array "fl list"

definition set_idx :: "'a list \<Rightarrow> nat list \<Rightarrow> 'a list \<Rightarrow> 'a list" where
  \<comment> \<open>\<^verbatim>\<open>a[idx] = vals\<close>: numpy assigns in the order of the index array, so the last
      value written to a repeated index stays (its documentation leaves that order open)\<close>
  "set_idx a idx vals = foldl (\<lambda>acc (i, v). acc[i := v]) a (zip idx vals)"

definition midpoint :: "box \<Rightarrow> scalar_or_array" where
  "midpoint self =
     (let midp = map (\<lambda>x. fl_div x (Fin 2)) (map2 fl_add (box_end self) (box_begin self));
          midp' = set_idx midp (ideg self) (take_idx (box_begin self) (ideg self))
      in if dim_ip self = 1 then Scalar (midp' ! 0) else Array midp')"

definition element :: "box \<Rightarrow> scalar_or_array" where
  "element self = midpoint self"

subsubsection \<open>\<^verbatim>\<open>equals\<close>\<close>

text \<open>
  \<^verbatim>\<open>np.allclose(a, b, rtol, atol)\<close> broadcasts its two arguments against each other and
  compares entry by entry: two finite entries are close when
  \<^verbatim>\<open>abs(x - y) <= atol + rtol * abs(y)\<close>, any other pair when \<^verbatim>\<open>x == y\<close>.  Two
  one-dimensional arrays broadcast when their lengths agree or one of them has length 1;
  otherwise numpy raises \<^verbatim>\<open>ValueError\<close>.
\<close>

definition broadcast2 :: "'a list \<Rightarrow> 'a list \<Rightarrow> error + ('a \<times> 'a) list" where
  "broadcast2 a b =
     (if length a = length b then Inr (zip a b)
      else if length a = 1 then Inr (map (\<lambda>y. (a ! 0, y)) b)
      else if length b = 1 then Inr (map (\<lambda>x. (x, b ! 0)) a)
      else Inl BroadcastError)"

definition isclose :: "fl \<Rightarrow> fl \<Rightarrow> fl \<Rightarrow> fl \<Rightarrow> bool" where
  "isclose x y rtol atol =
     (if fl_isfinite x \<and> fl_isfinite y
      then fl_le (fl_abs (fl_sub x y)) (fl_add atol (fl_mul rtol (fl_abs y)))
      else fl_eq x y)"

definition allclose :: "fl list \<Rightarrow> fl list \<Rightarrow> fl \<Rightarrow> fl \<Rightarrow> error + bool" where
  "allclose a b rtol atol =
     (case broadcast2 a b of
        Inl e \<Rightarrow> Inl e
      | Inr ps \<Rightarrow> Inr (list_all (\<lambda>(x, y). isclose x y rtol atol) ps))"

datatype pyobj = IntervalProdObj box | OtherObj

definition equals :: "box \<Rightarrow> pyobj \<Rightarrow> fl \<Rightarrow> error + bool" where
  "equals self other tol =
     (case other of
        OtherObj \<Rightarrow> Inr False
      | IntervalProdObj ob \<Rightarrow>
          (case allclose (box_begin self) (box_begin ob) (Fin 0) tol of
             Inl e \<Rightarrow> Inl e
           | Inr False \<Rightarrow> Inr False
           | Inr True \<Rightarrow> allclose (box_end self) (box_end ob) (Fin 0) tol))"

subsubsection \<open>\<^verbatim>\<open>dist\<close> and \<^verbatim>\<open>contains\<close>\<close>

text \<open>
  \<^verbatim>\<open>np.linalg.norm\<close> and \<^verbatim>\<open>RealNumbers().contains\<close> are not part of this module: the
  first is the parameter \<open>linalg_norm\<close> (vector, order), the second the parameter
  \<open>is_real\<close>.
\<close>

definition dist_ip :: "(fl list \<Rightarrow> fl \<Rightarrow> fl) \<Rightarrow> box \<Rightarrow> fl list \<Rightarrow> fl \<Rightarrow> error + fl" where
  "dist_ip linalg_norm self point ord =
     (if length point \<noteq> dim_ip self then Inl DimensionMismatch
      else
        let i_larger = np_where (map2 fl_gt point (box_end self));
            i_smaller = np_where (map2 fl_lt point (box_begin self))
        in if length i_larger = 0 \<and> length i_smaller = 0 then Inr (Fin 0)
           else
             let proj = take_idx point i_larger @ take_idx point i_smaller;
                 border = take_idx (box_end self) i_larger @ take_idx (box_begin self) i_smaller
             in Inr (linalg_norm (map2 fl_sub proj border) ord))"

definition contains ::
  "(fl \<Rightarrow> bool) \<Rightarrow> (fl list \<Rightarrow> fl \<Rightarrow> fl) \<Rightarrow> box \<Rightarrow> fl list \<Rightarrow> fl \<Rightarrow> error + bool" where
  "contains is_real linalg_norm self point tol =
     (if length point \<noteq> dim_ip self then Inr False
      else case point of
        [] \<Rightarrow> Inl EmptyIndexError
      | p0 # rest \<Rightarrow>
          if \<not> is_real p0 then Inr False
          else (case dist_ip linalg_norm self point PInf of
                  Inl e \<Rightarrow> Inl e
                | Inr d \<Rightarrow> if fl_gt d tol then Inr False else Inr True))"

subsubsection \<open>\<^verbatim>\<open>collapse\<close>, \<^verbatim>\<open>squeeze\<close>, \<^verbatim>\<open>insert\<close>\<close>

text \<open>
  The indices of \<^verbatim>\<open>collapse\<close> are Python integers.  An empty \<^verbatim>\<open>indcs\<close> becomes, by
  \<^verbatim>\<open>np.atleast_1d([])\<close>, an empty array of floats; it passes the first two checks and
  then \<^verbatim>\<open>self._begin[indcs]\<close> raises \<^verbatim>\<open>IndexError\<close>, since an array of floats cannot
  index.  The values are the \<^verbatim>\<open>float64\<close> entries that the comparisons with the bounds
  read and the two index assignments store.
\<close>

definition collapse :: "box \<Rightarrow> int list \<Rightarrow> fl list \<Rightarrow> error + box" where
  "collapse self indcs vals =
     (if length indcs \<noteq> length vals then Inl LengthMismatch
      else if list_ex (\<lambda>i. i < 0) indcs \<or> list_ex (\<lambda>i. i \<ge> int (dim_ip self)) indcs
        then Inl IndexOutOfRange
      else if indcs = [] then Inl NonIntegerIndex
      else
        let ix = map nat indcs
        in if np_any (map2 fl_lt vals (take_idx (box_begin self) ix)) then Inl ValueOutOfBounds
           else if np_any (map2 fl_gt vals (take_idx (box_end self) ix)) then Inl ValueOutOfBounds
           else IntervalProd (set_idx (box_begin self) ix vals) (set_idx (box_end self) ix vals))"

definition squeeze :: "box \<Rightarrow> error + box" where
  "squeeze self =
     IntervalProd (take_idx (box_begin self) (inondeg self))
                  (take_idx (box_end self) (inondeg self))"

definition np_empty :: "nat \<Rightarrow> fl list" where
  \<comment> \<open>\<^verbatim>\<open>np.empty(n)\<close>: the entries are arbitrary; every one is overwritten before it is read\<close>
  "np_empty n = replicate n (Fin 0)"

definition set_slice :: "'a list \<Rightarrow> nat \<Rightarrow> nat \<Rightarrow> 'a list \<Rightarrow> 'a list" where
  \<comment> \<open>\<^verbatim>\<open>a[lo:hi] = vals\<close> for \<open>lo \<le> hi \<le> length a\<close> and \<open>hi - lo\<close> values, as in every use
      below\<close>
  "set_slice a lo hi vals = take lo a @ vals @ drop hi a"

datatype insert_arg = BoxArg box | ArrayArg "fl list"

definition insert_ip :: "box \<Rightarrow> insert_arg \<Rightarrow> int \<Rightarrow> error + box" where
  "insert_ip self other index =
     (if \<not> (0 \<le> index \<and> index \<le> int (dim_ip self)) then Inl IndexOutOfRange
      else
        case (case other of BoxArg ob \<Rightarrow> Inr ob | ArrayArg a \<Rightarrow> IntervalProd a a) of
          Inl e \<Rightarrow> Inl e
        | Inr ob \<Rightarrow>
            let i = nat index; n = dim_ip self; m = dim_ip ob;
                new_beg = set_slice (np_empty (n + m)) 0 i (take i (box_begin self));
                new_end = set_slice (np_empty (n + m)) 0 i (take i (box_end self));
                new_beg = set_slice new_beg i (i + m) (box_begin ob);
                new_end = set_slice new_end i (i + m) (box_end ob);
                new_beg = (if i < n then set_slice new_beg (i + m) (n + m) (drop i (box_begin self))
                           else new_beg);
                new_end = (if i < n then set_slice new_end (i + m) (n + m) (drop i (box_end self))
                           else new_end)
            in IntervalProd new_beg new_end)"

subsubsection \<open>\<^verbatim>\<open>collapse\<close> on a store of arrays\<close>

text \<open>
  Whether \<^verbatim>\<open>collapse\<close> leaves its receiver alone depends on which array its index
  assignments write to.  Here the arrays live in a store, a box holds the addresses of its
  two arrays, \<^verbatim>\<open>.copy()\<close> and \<^verbatim>\<open>.astype(np.float64)\<close> allocate a new array, and
  \<^verbatim>\<open>a[idx] = vals\<close> updates the array at the address of \<open>a\<close>.
\<close>

record heap =
  arrays :: "nat \<Rightarrow> fl list"
  next_free :: nat

definition np_copy :: "nat \<Rightarrow> heap \<Rightarrow> nat \<times> heap" where
  "np_copy a h =
     (next_free h,
      \<lparr>arrays = (arrays h)(next_free h := arrays h a), next_free = Suc (next_free h)\<rparr>)"

definition np_setitem :: "nat \<Rightarrow> nat list \<Rightarrow> fl list \<Rightarrow> heap \<Rightarrow> heap" where
  "np_setitem a idx vals h = h\<lparr>arrays := (arrays h)(a := set_idx (arrays h a) idx vals)\<rparr>"

record box_ref =
  begin_at :: nat
  end_at :: nat
  ideg_of :: "nat list"
  inondeg_of :: "nat list"

definition deref :: "heap \<Rightarrow> box_ref \<Rightarrow> box" where
  "deref h r =
     \<lparr>box_begin = arrays h (begin_at r), box_end = arrays h (end_at r),
      ideg = ideg_of r, inondeg = inondeg_of r\<rparr>"

definition IntervalProd_heap :: "nat \<Rightarrow> nat \<Rightarrow> heap \<Rightarrow> (error + box_ref) \<times> heap" where
  "IntervalProd_heap b e h =
     (let (b', h1) = np_copy b h;
          (e', h2) = np_copy e h1;
          bg = arrays h2 b';
          en = arrays h2 e'
      in if length bg \<noteq> length en then (Inl DimensionMismatch, h2)
         else if \<not> np_all (map2 fl_le bg en) then (Inl OrderingViolation, h2)
         else (Inr \<lparr>begin_at = b', end_at = e',
                     ideg_of = np_where (map2 fl_eq bg en),
                     inondeg_of = np_where (map2 fl_ne bg en)\<rparr>, h2))"

definition collapse_heap ::
  "box_ref \<Rightarrow> int list \<Rightarrow> fl list \<Rightarrow> heap \<Rightarrow> (error + box_ref) \<times> heap" where
  "collapse_heap self indcs vals h =
     (let bg = arrays h (begin_at self); en = arrays h (end_at self)
      in if length indcs \<noteq> length vals then (Inl LengthMismatch, h)
         else if list_ex (\<lambda>i. i < 0) indcs \<or> list_ex (\<lambda>i. i \<ge> int (length bg)) indcs
           then (Inl IndexOutOfRange, h)
         else if indcs = [] then (Inl NonIntegerIndex, h)
         else
           let ix = map nat indcs
           in if np_any (map2 fl_lt vals (take_idx bg ix)) then (Inl ValueOutOfBounds, h)
              else if np_any (map2 fl_gt vals (take_idx en ix)) then (Inl ValueOutOfBounds, h)
              else
                let (b_new, h1) = np_copy (begin_at self) h;
                    h2 = np_setitem b_new ix vals h1;
                    (e_new, h3) = np_copy (end_at self) h2;
                    h4 = np_setitem e_new ix vals h3
                in IntervalProd_heap b_new e_new h4)"

subsubsection \<open>\<^verbatim>\<open>uniform_sampling\<close>\<close>

text \<open>
  \<^verbatim>\<open>RegularGrid\<close> belongs to another module.  The method returns
  \<^verbatim>\<open>RegularGrid(num_nodes, center, stride)\<close>; the model returns the three arguments of
  that call.

  The counts are Python integers, and the first statement of the method is
  \<^verbatim>\<open>np.atleast_1d(num_nodes).astype(np.int64)\<close>.  Counts within \<^verbatim>\<open>int64\<close> stay as they
  are.  A count from \<open>2^63\<close> up to \<open>2^64 - 1\<close> makes an array of \<^verbatim>\<open>uint64\<close>, and the
  conversion wraps it to a negative number.  A count beyond that, or below \<open>- 2^63\<close>,
  makes an array of Python objects, and the conversion raises \<^verbatim>\<open>OverflowError\<close>.
  (Listed beside counts within \<^verbatim>\<open>int64\<close>, a count from \<open>2^63\<close> up makes numpy build an
  array of floats, and what the conversion of that entry gives depends on the platform; the
  properties below that go beyond \<^verbatim>\<open>int64\<close> take a single count.)
\<close>

definition astype_int64 :: "int list \<Rightarrow> error + int list" where
  "astype_int64 ns =
     (if list_ex (\<lambda>n. n < - (2 ^ 63) \<or> 2 ^ 64 \<le> n) ns then Inl Int64Overflow
      else Inr (map wrap64 ns))"

record regular_grid_args =
  rg_shape :: "int list"
  rg_center :: scalar_or_array
  rg_stride :: "fl list"

definition uniform_sampling :: "box \<Rightarrow> int list \<Rightarrow> bool \<Rightarrow> error + regular_grid_args" where
  "uniform_sampling self num_nodes as_midp =
     (case astype_int64 num_nodes of
        Inl e \<Rightarrow> Inl e
      | Inr nodes \<Rightarrow>
          if np_any (map fl_isinf (box_begin self)) \<or> np_any (map fl_isinf (box_end self))
            then Inl UnboundedDomain
          else if length nodes \<noteq> dim_ip self then Inl ShapeMismatch
          else if np_any (map (\<lambda>n. n \<le> 0) nodes) then Inl NonPositiveCount
          else if np_any (map (\<lambda>n. n > 1) (take_idx nodes (ideg self)))
            then Inl DegenerateOversample
          else
            let center = midpoint self;
                stride = (if as_midp then map2 fl_div (size_ip self) (map of_int64 nodes)
                          else map2 fl_div (size_ip self)
                                 (map (\<lambda>n. of_int64 (wrap64 (n - 1))) nodes))
            in Inr \<lparr>rg_shape = nodes, rg_center = center, rg_stride = stride\<rparr>)"

subsection \<open>The classes \<^verbatim>\<open>Interval\<close>, \<^verbatim>\<open>Rectangle\<close> and \<^verbatim>\<open>Cube\<close>\<close>

definition fixed_dim :: "nat \<Rightarrow> fl list \<Rightarrow> fl list \<Rightarrow> error + box" where
  \<comment> \<open>the base constructor, then the check of the dimension\<close>
  "fixed_dim k bg en =
     (case IntervalProd bg en of
        Inl e \<Rightarrow> Inl e
      | Inr b \<Rightarrow> if dim_ip b \<noteq> k then Inl DimensionMismatch else Inr b)"

definition Interval :: "fl list \<Rightarrow> fl list \<Rightarrow> error + box" where
  "Interval bg en = fixed_dim 1 bg en"

definition Rectangle :: "fl list \<Rightarrow> fl list \<Rightarrow> error + box" where
  "Rectangle bg en = fixed_dim 2 bg en"

definition Cube :: "fl list \<Rightarrow> fl list \<Rightarrow> error + box" where
  "Cube bg en = fixed_dim 3 bg en"

subsection \<open>The invariants of the data model\<close>

definition invariants :: "box \<Rightarrow> bool" where
  \<comment> \<open>I1 and I2; \<open>dim \<ge> 0\<close> holds of every natural number\<close>
  "invariants b =
     (length (box_begin b) = dim_ip b \<and> length (box_end b) = dim_ip b \<and>
      (\<forall>i\<in>{0..<dim_ip b}. fl_le (box_begin b ! i) (box_end b ! i)))"

section \<open>Properties\<close>

subsection \<open>Rounding\<close>

lemma rne_of_int [simp]: "rne (of_int k) = k"
  by (simp add: rne_def)

lemma binade_below_lower: "- 1022 \<le> binade_below n a"
  by (induction n) auto

lemma binade_below_upper: "binade_below n a \<le> int n - 1023 \<or> binade_below n a = - 1022"
  by (induction n) auto

lemma binade_below_hit: "binade_below n a = - 1022 \<or> 2 powi (binade_below n a) \<le> a"
  by (induction n) auto

lemma binade_below_eq:
  "- 1022 \<le> e \<Longrightarrow> e \<le> int n - 1023 \<Longrightarrow> 2 powi e \<le> a \<Longrightarrow> a < 2 powi (e + 1) \<Longrightarrow>
   binade_below n a = e"
proof (induction n)
  case 0
  then show ?case by simp
next
  case (Suc n)
  show ?case
  proof (cases "e = int n - 1022")
    case True
    then show ?thesis using Suc.prems by simp
  next
    case False
    then have le: "e \<le> int n - 1023" using Suc.prems(2) by simp
    then have "e + 1 \<le> int n - 1022" by simp
    then have "(2::real) powi (e + 1) \<le> 2 powi (int n - 1022)"
      by (intro power_int_increasing) simp_all
    then have "\<not> 2 powi (int n - 1022) \<le> a" using Suc.prems(4) by simp
    then show ?thesis using Suc.IH [OF Suc.prems(1) le Suc.prems(3,4)] by simp
  qed
qed

lemma binade_below_small: "a < 2 powi (- 1022) \<Longrightarrow> binade_below n a = - 1022"
proof (induction n)
  case 0
  show ?case by simp
next
  case (Suc n)
  have "(2::real) powi (- 1022) \<le> 2 powi (int n - 1022)"
    by (intro power_int_increasing) simp_all
  then have "\<not> 2 powi (int n - 1022) \<le> a" using Suc.prems by simp
  then show ?case using Suc.IH [OF Suc.prems] by simp
qed

lemma binade_lower: "- 1022 \<le> binade a"
  unfolding binade_def by (rule binade_below_lower)

lemma binade_upper: "binade a \<le> 1023"
  unfolding binade_def using binade_below_upper [of 2046 a] by auto

lemma binade_hit: "binade a = - 1022 \<or> 2 powi (binade a) \<le> a"
  unfolding binade_def by (rule binade_below_hit)

lemma binade_eq:
  "- 1022 \<le> e \<Longrightarrow> e \<le> 1023 \<Longrightarrow> 2 powi e \<le> a \<Longrightarrow> a < 2 powi (e + 1) \<Longrightarrow> binade a = e"
  unfolding binade_def by (rule binade_below_eq) simp_all

lemma binade_small: "a < 2 powi (- 1022) \<Longrightarrow> binade a = - 1022"
  unfolding binade_def by (rule binade_below_small)


lemma round64_exact:
  assumes "- 1022 \<le> e" "e \<le> 1023" "2 powi e \<le> \<bar>x\<bar>" "\<bar>x\<bar> < 2 powi (e + 1)"
    and "x / 2 powi (e - 52) = of_int q"
  shows "round64 x = Fin x"
proof -
  have b: "binade \<bar>x\<bar> = e" by (rule binade_eq [OF assms(1-4)])
  have u: "(2::real) powi (e - 52) \<noteq> 0" by simp
  have y: "of_int (rne (x / 2 powi (e - 52))) * 2 powi (e - 52) = x"
    unfolding assms(5) rne_of_int using assms(5) u by (simp add: field_simps)
  have "(2::real) powi (e + 1) \<le> 2 powi 1024"
    using assms(2) by (intro power_int_increasing) simp_all
  then have "\<bar>x\<bar> < 2 ^ 1024" using assms(4) by simp
  then show ?thesis unfolding round64_def Let_def b y by simp
qed

lemma round64_exact_subnormal:
  assumes "\<bar>x\<bar> < 2 powi (- 1022)" and "x / 2 powi (- 1074) = of_int q"
  shows "round64 x = Fin x"
proof -
  have b: "binade \<bar>x\<bar> = - 1022" by (rule binade_small [OF assms(1)])
  have y: "of_int (rne (x / 2 powi (- 1074))) * 2 powi (- 1074) = x"
    unfolding assms(2) rne_of_int using assms(2) by (simp add: field_simps)
  have "\<bar>x\<bar> < 2 ^ 1024" using assms(1) by simp
  then show ?thesis unfolding round64_def Let_def b using y by simp
qed

lemma round64_zero [simp]: "round64 0 = Fin 0"
  by (rule round64_exact_subnormal [of 0 0]) simp_all

lemma round64_underflow:
  assumes "\<bar>x\<bar> < 2 powi (- 1075)"
  shows "round64 x = Fin 0"
proof -
  have "\<bar>x\<bar> < 2 powi (- 1022)" using assms by simp
  then have b: "binade \<bar>x\<bar> = - 1022" by (rule binade_small)
  let ?r = "x / 2 powi (- 1074)"
  have "\<bar>?r\<bar> < 1 / 2" using assms by (simp add: abs_mult field_simps)
  then have r: "- (1/2) < ?r" "?r < 1/2" by (simp_all add: abs_less_iff)
  have "rne ?r = 0"
  proof (cases "0 \<le> ?r")
    case True
    then have "\<lfloor>?r\<rfloor> = 0" using r(2) by (simp add: floor_eq_iff)
    then show ?thesis using r(2) by (simp add: rne_def Let_def)
  next
    case False
    then have "\<lfloor>?r\<rfloor> = - 1" using r(1) by (simp add: floor_eq_iff)
    then show ?thesis using r(1) by (simp add: rne_def Let_def)
  qed
  then show ?thesis unfolding round64_def Let_def b by simp
qed

lemma rne_ge_one: "1 \<le> r \<Longrightarrow> 1 \<le> rne r"
proof -
  assume "1 \<le> r"
  then have "1 \<le> \<lfloor>r\<rfloor>" by simp
  then show ?thesis by (simp add: rne_def Let_def)
qed

lemma round64_positive:
  assumes "2 powi (- 1074) \<le> z"
  shows "round64 z = PInf \<or> (\<exists>y. round64 z = Fin y \<and> 0 < y)"
proof -
  have zpos: "0 < z" using assms by (rule less_le_trans [rotated]) simp
  then have az: "\<bar>z\<bar> = z" by simp
  let ?e = "binade z"
  let ?u = "(2::real) powi (?e - 52)"
  have u: "0 < ?u" by simp
  have "1 \<le> z / ?u"
  proof (cases "?e = - 1022")
    case True
    then show ?thesis using assms by (simp add: field_simps)
  next
    case False
    then have "2 powi ?e \<le> z" using binade_hit [of z] by simp
    moreover have "(2::real) powi ?e = 2 powi 52 * ?u"
    proof -
      have "(2::real) powi ?e = 2 powi (52 + (?e - 52))" by simp
      also have "\<dots> = 2 powi 52 * 2 powi (?e - 52)" by (rule power_int_add) simp
      finally show ?thesis .
    qed
    ultimately have "2 powi 52 * ?u \<le> z" by simp
    then have "(2::real) powi 52 \<le> z / ?u" using u by (simp only: pos_le_divide_eq)
    moreover have "(1::real) \<le> 2 powi 52" by simp
    ultimately show ?thesis by (rule order_trans [rotated])
  qed
  then have "1 \<le> rne (z / ?u)" by (rule rne_ge_one)
  then have "0 < of_int (rne (z / ?u)) * ?u" using u by simp
  then show ?thesis using zpos unfolding round64_def Let_def az by auto
qed

lemma round64_grid:
  assumes "round64 x = Fin y"
  shows "\<exists>k::int. y = of_int k * 2 powi (- 1074)"
proof -
  let ?e = "binade \<bar>x\<bar>"
  have y: "y = of_int (rne (x / 2 powi (?e - 52))) * 2 powi (?e - 52)"
    using assms unfolding round64_def Let_def by (simp split: if_splits)
  have e: "0 \<le> ?e + 1022" using binade_lower [of "\<bar>x\<bar>"] by simp
  have "(2::real) powi (?e - 52) = 2 powi ((?e + 1022) + (- 1074))" by simp
  also have "\<dots> = 2 powi (?e + 1022) * 2 powi (- 1074)" by (rule power_int_add) simp
  also have "(2::real) powi (?e + 1022) = of_int (2 ^ nat (?e + 1022))"
    using e by (simp add: power_int_def)
  finally have "y = of_int (rne (x / 2 powi (?e - 52)) * 2 ^ nat (?e + 1022)) * 2 powi (- 1074)"
    using y by simp
  then show ?thesis by blast
qed

lemma f64_diff_positive:
  assumes "is_f64 (Fin a)" "is_f64 (Fin b)" "a < b"
  shows "fl_sub (Fin b) (Fin a) = PInf \<or> (\<exists>y. fl_sub (Fin b) (Fin a) = Fin y \<and> 0 < y)"
proof -
  from assms(1) obtain k where k: "a = of_int k * 2 powi (- 1074)"
    using round64_grid [of a a] by (auto simp: is_f64_def)
  from assms(2) obtain l where l: "b = of_int l * 2 powi (- 1074)"
    using round64_grid [of b b] by (auto simp: is_f64_def)
  have g: "(0::real) < 2 powi (- 1074)" by simp
  have "of_int k * 2 powi (- 1074) < of_int l * (2::real) powi (- 1074)"
    using assms(3) unfolding k l .
  then have "(of_int k :: real) < of_int l" using g by (simp only: mult_less_cancel_right_pos)
  then have "k + 1 \<le> l" by simp
  then have "(of_int (k + 1) :: real) \<le> of_int l" by (simp only: of_int_le_iff)
  then have "1 \<le> (of_int l :: real) - of_int k" by simp
  then have "1 * 2 powi (- 1074) \<le> (of_int l - of_int k) * (2::real) powi (- 1074)"
    using g by (simp only: mult_le_cancel_right_pos)
  then have "2 powi (- 1074) \<le> b + - a" unfolding k l by (simp add: algebra_simps)
  then show ?thesis
    unfolding fl_sub_def using round64_positive [of "b + - a"] by simp
qed

lemma f64_diff_zero: "fl_sub (Fin a) (Fin a) = Fin 0"
  by (simp add: fl_sub_def)

text \<open>The numbers of the examples below are \<^verbatim>\<open>float64\<close> values.\<close>

lemma round64_values:
  "round64 1 = Fin 1" "round64 2 = Fin 2" "round64 3 = Fin 3" "round64 4 = Fin 4"
  "round64 5 = Fin 5" "round64 (- 4) = Fin (- 4)"
  "round64 (1 / 2) = Fin (1 / 2)" "round64 (1 / 4) = Fin (1 / 4)"
  "round64 (5 / 2) = Fin (5 / 2)" "round64 (15 / 2) = Fin (15 / 2)"
  "round64 (15 / 4) = Fin (15 / 4)"
  "round64 (- (3 / 2)) = Fin (- (3 / 2))" "round64 (- (3 / 4)) = Fin (- (3 / 4))"
proof -
  show "round64 1 = Fin 1" by (rule round64_exact [of 0 _ "2 ^ 52"]) simp_all
  show "round64 2 = Fin 2" by (rule round64_exact [of 1 _ "2 ^ 52"]) simp_all
  show "round64 3 = Fin 3" by (rule round64_exact [of 1 _ "3 * 2 ^ 51"]) simp_all
  show "round64 4 = Fin 4" by (rule round64_exact [of 2 _ "2 ^ 52"]) simp_all
  show "round64 5 = Fin 5" by (rule round64_exact [of 2 _ "5 * 2 ^ 50"]) simp_all
  show "round64 (- 4) = Fin (- 4)" by (rule round64_exact [of 2 _ "- (2 ^ 52)"]) simp_all
  show "round64 (1 / 2) = Fin (1 / 2)" by (rule round64_exact [of "- 1" _ "2 ^ 52"]) simp_all
  show "round64 (1 / 4) = Fin (1 / 4)" by (rule round64_exact [of "- 2" _ "2 ^ 52"]) simp_all
  show "round64 (5 / 2) = Fin (5 / 2)" by (rule round64_exact [of 1 _ "5 * 2 ^ 50"]) simp_all
  show "round64 (15 / 2) = Fin (15 / 2)" by (rule round64_exact [of 2 _ "15 * 2 ^ 49"]) simp_all
  show "round64 (15 / 4) = Fin (15 / 4)" by (rule round64_exact [of 1 _ "15 * 2 ^ 49"]) simp_all
  show "round64 (- (3 / 2)) = Fin (- (3 / 2))"
    by (rule round64_exact [of 0 _ "- (3 * 2 ^ 51)"]) simp_all
  show "round64 (- (3 / 4)) = Fin (- (3 / 4))"
    by (rule round64_exact [of "- 1" _ "- (3 * 2 ^ 51)"]) simp_all
qed

subsection \<open>Auxiliary facts\<close>

declare measure_ip.simps [simp del]

lemma IntervalProd_InrD:
  assumes "IntervalProd bg en = Inr b"
  shows "box_begin b = bg" "box_end b = en" "length bg = length en"
    "ideg b = np_where (map2 fl_eq bg en)" "inondeg b = np_where (map2 fl_ne bg en)"
    "\<forall>i<length bg. fl_le (bg ! i) (en ! i)"
  using assms
  by (auto simp: IntervalProd_def np_all_def list_all_length split: if_splits)

lemma IntervalProd_InrI:
  assumes "length bg = length en" "\<forall>i<length bg. fl_le (bg ! i) (en ! i)"
  shows "IntervalProd bg en = Inr \<lparr>box_begin = bg, box_end = en,
                ideg = np_where (map2 fl_eq bg en),
                inondeg = np_where (map2 fl_ne bg en)\<rparr>"
  using assms by (auto simp: IntervalProd_def np_all_def list_all_length)

lemma fl_le_not_NaN: "fl_le x y \<Longrightarrow> x \<noteq> NaN \<and> y \<noteq> NaN"
  by (cases x; cases y) auto

lemma set_np_where: "set (np_where bs) = {i. i < length bs \<and> bs ! i}"
  by (auto simp: np_where_def)

lemma np_where_all: "\<forall>x\<in>set bs. x \<Longrightarrow> np_where bs = [0..<length bs]"
  unfolding np_where_def by (rule filter_True) auto

lemma np_where_none: "\<forall>x\<in>set bs. \<not> x \<Longrightarrow> np_where bs = []"
proof -
  assume a: "\<forall>x\<in>set bs. \<not> x"
  have "\<not> bs ! i" if "i < length bs" for i
    using a nth_mem [OF that] by blast
  then have "\<forall>i\<in>set [0..<length bs]. \<not> bs ! i" by simp
  then show ?thesis unfolding np_where_def by (simp only: filter_False)
qed

lemma take_idx_map2:
  "\<forall>i\<in>set idx. i < length xs \<and> i < length ys \<Longrightarrow>
   take_idx (map2 f xs ys) idx = map2 f (take_idx xs idx) (take_idx ys idx)"
  by (induction idx) (auto simp: take_idx_def)

lemma take_idx_upt: "take_idx xs [0..<length xs] = xs"
  by (simp add: take_idx_def map_nth)

lemma measure_cases:
  "measure_ip b d =
     (if truedim b = 0 then Fin 0
      else if (case d of None \<Rightarrow> int (truedim b) | Some k \<Rightarrow> k) < int (truedim b) then PInf
      else if (case d of None \<Rightarrow> int (truedim b) | Some k \<Rightarrow> k) > int (truedim b) then Fin 0
      else np_prod (take_idx (size_ip b) (inondeg b)))"
proof (cases d)
  case None
  show ?thesis unfolding None
    by (subst measure_ip.simps, subst measure_ip.simps) (simp add: size_ip_def)
next
  case (Some k)
  show ?thesis unfolding Some
    by (subst measure_ip.simps) (simp add: size_ip_def)
qed

lemma map2_nth: "i < length xs \<Longrightarrow> i < length ys \<Longrightarrow> map2 f xs ys ! i = f (xs ! i) (ys ! i)"
  by simp

lemma fl_ne_iff: "fl_le x y \<Longrightarrow> fl_ne x y = (x \<noteq> y)"
  by (cases x; cases y) (auto simp: fl_ne_def fl_eq_def)

lemma fl_eq_iff: "fl_le x y \<Longrightarrow> fl_eq x y = (x = y)"
  by (cases x; cases y) (auto simp: fl_eq_def)

lemma inondeg_constructed:
  assumes "IntervalProd bg en = Inr b"
  shows "inondeg b = filter (\<lambda>i. bg ! i \<noteq> en ! i) [0..<length bg]"
proof -
  note d = IntervalProd_InrD [OF assms]
  have "np_where (map2 fl_ne bg en) = filter (\<lambda>i. bg ! i \<noteq> en ! i) [0..<length bg]"
    unfolding np_where_def using d(3,6)
    by (auto intro!: filter_cong simp: fl_ne_iff)
  then show ?thesis using d(5) by simp
qed

lemma ideg_constructed:
  assumes "IntervalProd bg en = Inr b"
  shows "ideg b = filter (\<lambda>i. bg ! i = en ! i) [0..<length bg]"
proof -
  note d = IntervalProd_InrD [OF assms]
  have "np_where (map2 fl_eq bg en) = filter (\<lambda>i. bg ! i = en ! i) [0..<length bg]"
    unfolding np_where_def using d(3,6)
    by (auto intro!: filter_cong simp: fl_eq_iff)
  then show ?thesis using d(4) by simp
qed

subsection \<open>Measure\<close>

text \<open>
  Claim C1.  For every box the constructor returns, \<^verbatim>\<open>measure(dim)\<close> is 0.0 when
  \<^verbatim>\<open>truedim\<close> is 0, whatever \<^verbatim>\<open>dim\<close> is (omitted or given); otherwise
  \<^verbatim>\<open>measure()\<close> is \<^verbatim>\<open>measure(dim=truedim)\<close>, and \<^verbatim>\<open>measure(dim=k)\<close> is
  \<open>+\<infinity>\<close> for \<open>k < truedim\<close>, 0.0 for \<open>k > truedim\<close>, and for \<open>k = truedim\<close> the product
  of \<^verbatim>\<open>size[i]\<close> over the axes with \<^verbatim>\<open>begin[i] != end[i]\<close>, in ascending order of
  the axes.  \<^verbatim>\<open>truedim\<close> is the number of those axes and \<^verbatim>\<open>size[i]\<close> is
  \<^verbatim>\<open>end[i] - begin[i]\<close>.
\<close>

theorem measure_hausdorff:
  assumes "IntervalProd bg en = Inr b"
  shows "truedim b = length (filter (\<lambda>i. bg ! i \<noteq> en ! i) [0..<length bg]) \<and>
     (\<forall>i<length bg. size_ip b ! i = fl_sub (en ! i) (bg ! i)) \<and>
     (truedim b = 0 \<longrightarrow> measure_ip b d = Fin 0) \<and>
     (truedim b \<noteq> 0 \<longrightarrow>
        measure_ip b None = measure_ip b (Some (int (truedim b))) \<and>
        (\<forall>k. k < int (truedim b) \<longrightarrow> measure_ip b (Some k) = PInf) \<and>
        (\<forall>k. k > int (truedim b) \<longrightarrow> measure_ip b (Some k) = Fin 0) \<and>
        measure_ip b (Some (int (truedim b))) =
          np_prod (map (\<lambda>i. size_ip b ! i) (filter (\<lambda>i. bg ! i \<noteq> en ! i) [0..<length bg])))"
proof -
  note d = IntervalProd_InrD [OF assms]
  have nd: "inondeg b = filter (\<lambda>i. bg ! i \<noteq> en ! i) [0..<length bg]"
    by (rule inondeg_constructed [OF assms])
  have t: "truedim b = length (filter (\<lambda>i. bg ! i \<noteq> en ! i) [0..<length bg])"
    by (simp add: truedim_def nd)
  have s: "\<forall>i<length bg. size_ip b ! i = fl_sub (en ! i) (bg ! i)"
    using d(1,2,3) by (simp add: size_ip_def)
  have z: "truedim b = 0 \<longrightarrow> measure_ip b d = Fin 0"
    by (simp add: measure_cases)
  have n: "measure_ip b None = measure_ip b (Some (int (truedim b)))"
    by (simp add: measure_cases)
  have lo: "truedim b \<noteq> 0 \<longrightarrow> (\<forall>k. k < int (truedim b) \<longrightarrow> measure_ip b (Some k) = PInf)"
    by (simp add: measure_cases)
  have hi: "truedim b \<noteq> 0 \<longrightarrow> (\<forall>k. k > int (truedim b) \<longrightarrow> measure_ip b (Some k) = Fin 0)"
    by (simp add: measure_cases)
  have eq: "truedim b \<noteq> 0 \<longrightarrow> measure_ip b (Some (int (truedim b))) =
          np_prod (map (\<lambda>i. size_ip b ! i) (filter (\<lambda>i. bg ! i \<noteq> en ! i) [0..<length bg]))"
    by (simp add: measure_cases take_idx_def nd)
  from t s z n lo hi eq show ?thesis by blast
qed

text \<open>
  The box of the docstring, \<^verbatim>\<open>IntervalProd([-1, 2.5, 0], [-0.5, 10, 0])\<close>: its measure is
  3.75, at dimension 3 it is 0.0 and at dimension 1 it is \<open>+\<infinity>\<close>.
\<close>

theorem measure_hausdorff_witness:
  "IntervalProd [Fin (-1), Fin (5/2), Fin 0] [Fin (-1/2), Fin 10, Fin 0] =
     Inr \<lparr>box_begin = [Fin (-1), Fin (5/2), Fin 0], box_end = [Fin (-1/2), Fin 10, Fin 0],
          ideg = [2], inondeg = [0, 1]\<rparr> \<and>
   truedim \<lparr>box_begin = [Fin (-1), Fin (5/2), Fin 0], box_end = [Fin (-1/2), Fin 10, Fin 0],
          ideg = [2], inondeg = [0, 1]\<rparr> = 2 \<and>
   measure_ip \<lparr>box_begin = [Fin (-1), Fin (5/2), Fin 0], box_end = [Fin (-1/2), Fin 10, Fin 0],
          ideg = [2], inondeg = [0, 1]\<rparr> None = Fin (15/4) \<and>
   measure_ip \<lparr>box_begin = [Fin (-1), Fin (5/2), Fin 0], box_end = [Fin (-1/2), Fin 10, Fin 0],
          ideg = [2], inondeg = [0, 1]\<rparr> (Some 3) = Fin 0 \<and>
   measure_ip \<lparr>box_begin = [Fin (-1), Fin (5/2), Fin 0], box_end = [Fin (-1/2), Fin 10, Fin 0],
          ideg = [2], inondeg = [0, 1]\<rparr> (Some 1) = PInf"
proof -
  let ?b = "\<lparr>box_begin = [Fin (-1), Fin (5/2), Fin 0], box_end = [Fin (-1/2), Fin 10, Fin 0],
          ideg = [2::nat], inondeg = [0, 1::nat]\<rparr>"
  have h: "IntervalProd [Fin (-1), Fin (5/2), Fin 0] [Fin (-1/2), Fin 10, Fin 0] = Inr ?b"
    by (simp add: IntervalProd_def np_all_def np_where_def fl_eq_def fl_ne_def)
  have t: "truedim ?b = 2" by (simp add: truedim_def)
  have tnz: "truedim ?b \<noteq> 0" by (simp add: truedim_def)
  note m = measure_hausdorff [OF h, of None]
  note c = m [THEN conjunct2, THEN conjunct2, THEN conjunct2, THEN mp, OF tnz]
  have 1: "measure_ip ?b None = measure_ip ?b (Some 2)"
    using c [THEN conjunct1] t by simp
  have 2: "measure_ip ?b (Some 3) = Fin 0"
    using c [THEN conjunct2, THEN conjunct2, THEN conjunct1] t by simp
  have 3: "measure_ip ?b (Some 1) = PInf"
    using c [THEN conjunct2, THEN conjunct1] t by simp
  have 4: "measure_ip ?b (Some 2) = Fin (15/4)"
    using c [THEN conjunct2, THEN conjunct2, THEN conjunct2] t
    by (simp add: np_prod_def size_ip_def fl_sub_def round64_values)
  from h t 1 2 3 4 show ?thesis by simp
qed

subsection \<open>Volume and squeezing\<close>

lemma squeeze_constructed:
  assumes "IntervalProd bg en = Inr b"
  shows "squeeze b = Inr \<lparr>box_begin = take_idx bg (inondeg b), box_end = take_idx en (inondeg b),
                          ideg = [], inondeg = [0..<length (inondeg b)]\<rparr>"
proof -
  note d = IntervalProd_InrD [OF assms]
  let ?nd = "inondeg b"
  let ?sb = "take_idx bg ?nd" and ?se = "take_idx en ?nd"
  have nd: "?nd = filter (\<lambda>i. bg ! i \<noteq> en ! i) [0..<length bg]"
    by (rule inondeg_constructed [OF assms])
  have len: "length ?sb = length ?se" by (simp add: take_idx_def)
  have ax: "fl_le (?sb ! j) (?se ! j) \<and> ?sb ! j \<noteq> ?se ! j" if "j < length ?nd" for j
  proof -
    have "?nd ! j \<in> set ?nd" using that by simp
    then have "?nd ! j < length bg \<and> bg ! (?nd ! j) \<noteq> en ! (?nd ! j)" unfolding nd by simp
    then show ?thesis using that d(6) by (simp add: take_idx_def)
  qed
  have le: "\<forall>j<length ?sb. fl_le (?sb ! j) (?se ! j)"
    using ax by (simp add: take_idx_def)
  have ne: "\<forall>x\<in>set (map2 fl_ne ?sb ?se). x"
  proof
    fix x assume "x \<in> set (map2 fl_ne ?sb ?se)"
    then obtain j where j: "j < length (map2 fl_ne ?sb ?se)" "x = map2 fl_ne ?sb ?se ! j"
      by (auto simp: in_set_conv_nth)
    then have jl: "j < length ?nd" by (simp add: take_idx_def)
    have "x = fl_ne (?sb ! j) (?se ! j)" using j jl by (simp add: take_idx_def)
    then show x using ax [OF jl] by (simp add: fl_ne_iff)
  qed
  have eq: "\<forall>x\<in>set (map2 fl_eq ?sb ?se). \<not> x"
  proof
    fix x assume "x \<in> set (map2 fl_eq ?sb ?se)"
    then obtain j where j: "j < length (map2 fl_eq ?sb ?se)" "x = map2 fl_eq ?sb ?se ! j"
      by (auto simp: in_set_conv_nth)
    then have jl: "j < length ?nd" by (simp add: take_idx_def)
    have "x = fl_eq (?sb ! j) (?se ! j)" using j jl by (simp add: take_idx_def)
    then show "\<not> x" using ax [OF jl] by (simp add: fl_eq_iff)
  qed
  have w1: "np_where (map2 fl_ne ?sb ?se) = [0..<length ?nd]"
    using np_where_all [OF ne] by (simp add: take_idx_def)
  have w2: "np_where (map2 fl_eq ?sb ?se) = []"
    by (rule np_where_none [OF eq])
  show ?thesis
    unfolding squeeze_def d(1,2) using IntervalProd_InrI [OF len le] w1 w2 by simp
qed

lemma fl_eq_self: "fl_eq x x = (x \<noteq> NaN)"
  by (simp add: fl_eq_def)

text \<open>
  Claim C3, as amended.  For every box the constructor returns, \<^verbatim>\<open>volume\<close> is the value
  of \<^verbatim>\<open>measure(dim=dim)\<close>; a box with a degenerate axis has volume 0.0; \<^verbatim>\<open>squeeze()\<close>
  succeeds with a box whose \<^verbatim>\<open>volume\<close> is the value of \<^verbatim>\<open>measure()\<close> of the original;
  and each of the two comparisons with \<^verbatim>\<open>==\<close> is true exactly when the value compared is
  not NaN.
\<close>

theorem volume_measure_squeeze:
  assumes "IntervalProd bg en = Inr b"
  shows "volume b = measure_ip b (Some (int (dim_ip b))) \<and>
         ((\<exists>i<dim_ip b. bg ! i = en ! i) \<longrightarrow> volume b = Fin 0) \<and>
         (\<exists>s. squeeze b = Inr s \<and> measure_ip b None = volume s) \<and>
         (fl_eq (volume b) (measure_ip b (Some (int (dim_ip b)))) \<longleftrightarrow> volume b \<noteq> NaN) \<and>
         (\<forall>s. squeeze b = Inr s \<longrightarrow>
              (fl_eq (measure_ip b None) (volume s) \<longleftrightarrow> measure_ip b None \<noteq> NaN))"
proof -
  note d = IntervalProd_InrD [OF assms]
  let ?nd = "inondeg b"
  have nd: "?nd = filter (\<lambda>i. bg ! i \<noteq> en ! i) [0..<length bg]"
    by (rule inondeg_constructed [OF assms])
  have inr: "\<forall>i\<in>set ?nd. i < length en \<and> i < length bg" unfolding nd using d(3) by simp
  have v: "volume b = measure_ip b (Some (int (dim_ip b)))" by (simp add: volume_def)
  have deg: "volume b = Fin 0" if "\<exists>i<dim_ip b. bg ! i = en ! i"
  proof -
    from that obtain i where i: "i < length bg" "bg ! i = en ! i" by (auto simp: dim_ip_def d(1))
    have "length (filter (\<lambda>i. bg ! i \<noteq> en ! i) [0..<length bg]) < length [0..<length bg]"
      by (rule length_filter_less [of i]) (use i in auto)
    then have "truedim b < dim_ip b" by (simp add: truedim_def nd [symmetric] dim_ip_def d(1))
    then show ?thesis by (simp add: volume_def measure_cases)
  qed
  let ?s = "\<lparr>box_begin = take_idx bg ?nd, box_end = take_idx en ?nd,
             ideg = [], inondeg = [0..<length ?nd]\<rparr>"
  have sq: "squeeze b = Inr ?s" by (rule squeeze_constructed [OF assms])
  have ts: "truedim ?s = truedim b" by (simp add: truedim_def)
  have ds: "dim_ip ?s = truedim b" by (simp add: truedim_def dim_ip_def take_idx_def)
  have sz: "size_ip ?s = take_idx (size_ip b) ?nd"
    unfolding size_ip_def d(1,2) using take_idx_map2 [OF inr, of fl_sub] by simp
  have "take_idx (size_ip ?s) (inondeg ?s) = size_ip ?s"
    using take_idx_upt [of "size_ip ?s"] by (simp add: size_ip_def take_idx_def)
  then have me: "measure_ip b None = volume ?s"
    unfolding volume_def by (simp add: measure_cases ts ds sz)
  have e1: "fl_eq (volume b) (measure_ip b (Some (int (dim_ip b)))) \<longleftrightarrow> volume b \<noteq> NaN"
    unfolding v [symmetric] by (rule fl_eq_self)
  have e2: "\<forall>s. squeeze b = Inr s \<longrightarrow>
              (fl_eq (measure_ip b None) (volume s) \<longleftrightarrow> measure_ip b None \<noteq> NaN)"
  proof (intro allI impI)
    fix s assume "squeeze b = Inr s"
    then have "s = ?s" using sq by simp
    then have "volume s = measure_ip b None" using me by simp
    then show "fl_eq (measure_ip b None) (volume s) \<longleftrightarrow> measure_ip b None \<noteq> NaN"
      by (simp add: fl_eq_self)
  qed
  from v deg sq me e1 e2 show ?thesis by blast
qed

text \<open>
  The docstring's box \<^verbatim>\<open>IntervalProd([-1, 2.5, 0], [-0.5, 10, 0])\<close>: its volume is 0.0,
  it squeezes to \<^verbatim>\<open>IntervalProd([-1, 2.5], [-0.5, 10])\<close>, and
  \<^verbatim>\<open>measure() == squeeze().volume\<close> is true, the measure being 3.75.
\<close>

theorem volume_measure_squeeze_witness:
  "IntervalProd [Fin (-1), Fin (5/2), Fin 0] [Fin (-1/2), Fin 10, Fin 0] =
     Inr \<lparr>box_begin = [Fin (-1), Fin (5/2), Fin 0], box_end = [Fin (-1/2), Fin 10, Fin 0],
          ideg = [2], inondeg = [0, Suc 0]\<rparr> \<and>
   (\<exists>i<dim_ip \<lparr>box_begin = [Fin (-1), Fin (5/2), Fin 0], box_end = [Fin (-1/2), Fin 10, Fin 0],
          ideg = [2], inondeg = [0, Suc 0]\<rparr>.
        [Fin (-1), Fin (5/2), Fin 0] ! i = [Fin (-1/2), Fin 10, Fin 0] ! i) \<and>
   volume \<lparr>box_begin = [Fin (-1), Fin (5/2), Fin 0], box_end = [Fin (-1/2), Fin 10, Fin 0],
          ideg = [2], inondeg = [0, Suc 0]\<rparr> = Fin 0 \<and>
   squeeze \<lparr>box_begin = [Fin (-1), Fin (5/2), Fin 0], box_end = [Fin (-1/2), Fin 10, Fin 0],
          ideg = [2], inondeg = [0, Suc 0]\<rparr> =
     Inr \<lparr>box_begin = [Fin (-1), Fin (5/2)], box_end = [Fin (-1/2), Fin 10],
          ideg = [], inondeg = [0, Suc 0]\<rparr> \<and>
   measure_ip \<lparr>box_begin = [Fin (-1), Fin (5/2), Fin 0], box_end = [Fin (-1/2), Fin 10, Fin 0],
          ideg = [2], inondeg = [0, Suc 0]\<rparr> None =
     volume \<lparr>box_begin = [Fin (-1), Fin (5/2)], box_end = [Fin (-1/2), Fin 10],
          ideg = [], inondeg = [0, Suc 0]\<rparr> \<and>
   fl_eq (measure_ip \<lparr>box_begin = [Fin (-1), Fin (5/2), Fin 0],
          box_end = [Fin (-1/2), Fin 10, Fin 0], ideg = [2], inondeg = [0, Suc 0]\<rparr> None)
     (volume \<lparr>box_begin = [Fin (-1), Fin (5/2)], box_end = [Fin (-1/2), Fin 10],
          ideg = [], inondeg = [0, Suc 0]\<rparr>)"
proof -
  let ?b = "\<lparr>box_begin = [Fin (-1), Fin (5/2), Fin 0], box_end = [Fin (-1/2), Fin 10, Fin 0],
          ideg = [2::nat], inondeg = [0, Suc 0]\<rparr>"
  let ?s = "\<lparr>box_begin = [Fin (-1), Fin (5/2)], box_end = [Fin (-1/2), Fin 10],
          ideg = [] :: nat list, inondeg = [0, Suc 0]\<rparr>"
  have h: "IntervalProd [Fin (-1), Fin (5/2), Fin 0] [Fin (-1/2), Fin 10, Fin 0] = Inr ?b"
    by (simp add: IntervalProd_def np_all_def np_where_def fl_eq_def fl_ne_def)
  have e: "\<exists>i<dim_ip ?b. [Fin (-1), Fin (5/2), Fin 0] ! i = [Fin (-1/2), Fin 10, Fin 0] ! i"
    by (rule exI [of _ 2]) (simp add: dim_ip_def)
  have sq: "squeeze ?b = Inr ?s"
    by (simp add: squeeze_def take_idx_def IntervalProd_def np_all_def np_where_def
        fl_eq_def fl_ne_def)
  have mv: "measure_ip ?b None = Fin (15 / 4)"
    by (simp add: measure_cases truedim_def take_idx_def size_ip_def np_prod_def fl_sub_def
        round64_values)
  note m = volume_measure_squeeze [OF h]
  have 1: "volume ?b = Fin 0"
    using m [THEN conjunct2, THEN conjunct1] e by (rule mp)
  from m [THEN conjunct2, THEN conjunct2, THEN conjunct1] obtain s
    where "squeeze ?b = Inr s" "measure_ip ?b None = volume s" by blast
  with sq have 2: "measure_ip ?b None = volume ?s" by simp
  have "fl_eq (measure_ip ?b None) (volume ?s) \<longleftrightarrow> measure_ip ?b None \<noteq> NaN"
    using m [THEN conjunct2, THEN conjunct2, THEN conjunct2, THEN conjunct2] sq by blast
  then have 3: "fl_eq (measure_ip ?b None) (volume ?s)" using mv by simp
  from h e 1 sq 2 3 show ?thesis by (intro conjI)
qed

lemma underflow_box:
  fixes x :: real
  assumes "0 < x" and "round64 x = Fin x" and "round64 (x * x) = Fin 0"
  shows "IntervalProd [Fin 0, Fin 0, Fin 0] [Fin x, Fin x, PInf] =
           Inr \<lparr>box_begin = [Fin 0, Fin 0, Fin 0], box_end = [Fin x, Fin x, PInf],
                ideg = [], inondeg = [0, Suc 0, 2]\<rparr>"
    and "squeeze \<lparr>box_begin = [Fin 0, Fin 0, Fin 0], box_end = [Fin x, Fin x, PInf],
                ideg = [], inondeg = [0, Suc 0, 2]\<rparr> =
           Inr \<lparr>box_begin = [Fin 0, Fin 0, Fin 0], box_end = [Fin x, Fin x, PInf],
                ideg = [], inondeg = [0, Suc 0, 2]\<rparr>"
    and "measure_ip \<lparr>box_begin = [Fin 0, Fin 0, Fin 0], box_end = [Fin x, Fin x, PInf],
                ideg = [], inondeg = [0, Suc 0, 2]\<rparr> None = NaN"
    and "volume \<lparr>box_begin = [Fin 0, Fin 0, Fin 0], box_end = [Fin x, Fin x, PInf],
                ideg = [], inondeg = [0, Suc 0, 2]\<rparr> = NaN"
proof -
  let ?b = "\<lparr>box_begin = [Fin 0, Fin 0, Fin 0], box_end = [Fin x, Fin x, PInf],
                ideg = [] :: nat list, inondeg = [0, Suc 0, 2::nat]\<rparr>"
  show c: "IntervalProd [Fin 0, Fin 0, Fin 0] [Fin x, Fin x, PInf] = Inr ?b"
    using assms(1) by (simp add: IntervalProd_def np_all_def np_where_def fl_eq_def fl_ne_def)
  show "squeeze ?b = Inr ?b"
    using c by (simp add: squeeze_def take_idx_def)
  have p: "np_prod (take_idx (size_ip ?b) (inondeg ?b)) = NaN"
    using assms(2,3)
    by (simp add: take_idx_def size_ip_def fl_sub_def np_prod_def fl_inf_of_def)
  show "measure_ip ?b None = NaN"
    using p by (simp add: measure_cases truedim_def)
  show "volume ?b = NaN"
    using p by (simp add: volume_def measure_cases truedim_def dim_ip_def)
qed

text \<open>
  Claim C3 as stated fails where the product of the sizes is NaN.  In
  \<^verbatim>\<open>IntervalProd([0, 0, 0], [2**-600, 2**-600, inf])\<close> no axis is degenerate, the product
  of the first two sizes underflows to 0.0, and 0.0 times the infinite size is NaN:
  \<^verbatim>\<open>measure()\<close>, \<^verbatim>\<open>volume\<close> and \<^verbatim>\<open>squeeze().volume\<close> are NaN, and both comparisons with
  \<^verbatim>\<open>==\<close> are false.
\<close>

theorem volume_measure_squeeze_counterexample:
  "IntervalProd [Fin 0, Fin 0, Fin 0] [Fin (1 / 2 ^ 600), Fin (1 / 2 ^ 600), PInf] =
     Inr \<lparr>box_begin = [Fin 0, Fin 0, Fin 0],
          box_end = [Fin (1 / 2 ^ 600), Fin (1 / 2 ^ 600), PInf],
          ideg = [], inondeg = [0, Suc 0, 2]\<rparr> \<and>
   squeeze \<lparr>box_begin = [Fin 0, Fin 0, Fin 0],
          box_end = [Fin (1 / 2 ^ 600), Fin (1 / 2 ^ 600), PInf],
          ideg = [], inondeg = [0, Suc 0, 2]\<rparr> =
     Inr \<lparr>box_begin = [Fin 0, Fin 0, Fin 0],
          box_end = [Fin (1 / 2 ^ 600), Fin (1 / 2 ^ 600), PInf],
          ideg = [], inondeg = [0, Suc 0, 2]\<rparr> \<and>
   measure_ip \<lparr>box_begin = [Fin 0, Fin 0, Fin 0],
          box_end = [Fin (1 / 2 ^ 600), Fin (1 / 2 ^ 600), PInf],
          ideg = [], inondeg = [0, Suc 0, 2]\<rparr> None = NaN \<and>
   \<not> fl_eq (measure_ip \<lparr>box_begin = [Fin 0, Fin 0, Fin 0],
          box_end = [Fin (1 / 2 ^ 600), Fin (1 / 2 ^ 600), PInf],
          ideg = [], inondeg = [0, Suc 0, 2]\<rparr> None)
     (volume \<lparr>box_begin = [Fin 0, Fin 0, Fin 0],
          box_end = [Fin (1 / 2 ^ 600), Fin (1 / 2 ^ 600), PInf],
          ideg = [], inondeg = [0, Suc 0, 2]\<rparr>)"
proof -
  have x0: "(0::real) < 1 / 2 ^ 600" by simp
  have x1: "round64 (1 / 2 ^ 600) = Fin (1 / 2 ^ 600)"
    by (rule round64_exact [of "- 600" _ "2 ^ 52"]) simp_all
  have x2: "round64 (1 / 2 ^ 600 * (1 / 2 ^ 600)) = Fin 0"
    by (rule round64_underflow) simp
  note u = underflow_box [OF x0 x1 x2]
  have "\<not> fl_eq NaN NaN" by (simp add: fl_eq_def)
  then show ?thesis
    unfolding u by (simp only: simp_thms)
qed

subsection \<open>Invariants of returned boxes\<close>

lemma IntervalProd_invariants: "IntervalProd bg en = Inr r \<Longrightarrow> invariants r"
  using IntervalProd_InrD [of bg en r] by (simp add: invariants_def dim_ip_def)

lemma collapse_invariants: "collapse b ix vs = Inr r \<Longrightarrow> invariants r"
  by (auto simp: collapse_def Let_def split: if_splits dest: IntervalProd_invariants)

lemma squeeze_invariants: "squeeze b = Inr r \<Longrightarrow> invariants r"
  by (auto simp: squeeze_def dest: IntervalProd_invariants)

lemma insert_invariants: "insert_ip b other i = Inr r \<Longrightarrow> invariants r"
  by (auto simp: insert_ip_def Let_def split: if_splits sum.splits dest: IntervalProd_invariants)

text \<open>
  Claim C9.  Every box returned by the constructor, by \<^verbatim>\<open>collapse\<close>, by \<^verbatim>\<open>squeeze\<close> or
  by \<^verbatim>\<open>insert\<close> has \<^verbatim>\<open>begin\<close> and \<^verbatim>\<open>end\<close> of length \<^verbatim>\<open>dim\<close> and
  \<^verbatim>\<open>begin[i] <= end[i]\<close> on every axis.  Each operation returns either an error or a box
  (the result is a sum), and whatever the receiver and the arguments are, a returned box
  satisfies the invariants.
\<close>

theorem results_satisfy_invariants:
  "(IntervalProd bg en = Inr r1 \<longrightarrow> invariants r1) \<and>
   (collapse b1 ix vs = Inr r2 \<longrightarrow> invariants r2) \<and>
   (squeeze b2 = Inr r3 \<longrightarrow> invariants r3) \<and>
   (insert_ip b3 other i = Inr r4 \<longrightarrow> invariants r4)"
  using IntervalProd_invariants collapse_invariants squeeze_invariants insert_invariants
  by blast

text \<open>
  The boxes of the docstrings: \<^verbatim>\<open>IntervalProd([-1, 0, 2], [-0.5, 1, 3])\<close>, its
  \<^verbatim>\<open>collapse(1, 0)\<close>, the \<^verbatim>\<open>squeeze()\<close> of that, and \<^verbatim>\<open>insert(0, 1)\<close>.
\<close>

theorem results_satisfy_invariants_witness:
  "IntervalProd [Fin (-1), Fin 0, Fin 2] [Fin (-1/2), Fin 1, Fin 3] =
     Inr \<lparr>box_begin = [Fin (-1), Fin 0, Fin 2], box_end = [Fin (-1/2), Fin 1, Fin 3],
          ideg = [], inondeg = [0, 1, 2]\<rparr> \<and>
   invariants \<lparr>box_begin = [Fin (-1), Fin 0, Fin 2], box_end = [Fin (-1/2), Fin 1, Fin 3],
          ideg = [], inondeg = [0, 1, 2]\<rparr> \<and>
   collapse \<lparr>box_begin = [Fin (-1), Fin 0, Fin 2], box_end = [Fin (-1/2), Fin 1, Fin 3],
          ideg = [], inondeg = [0, 1, 2]\<rparr> [1] [Fin 0] =
     Inr \<lparr>box_begin = [Fin (-1), Fin 0, Fin 2], box_end = [Fin (-1/2), Fin 0, Fin 3],
          ideg = [1], inondeg = [0, 2]\<rparr> \<and>
   invariants \<lparr>box_begin = [Fin (-1), Fin 0, Fin 2], box_end = [Fin (-1/2), Fin 0, Fin 3],
          ideg = [1], inondeg = [0, 2]\<rparr> \<and>
   squeeze \<lparr>box_begin = [Fin (-1), Fin 0, Fin 2], box_end = [Fin (-1/2), Fin 0, Fin 3],
          ideg = [1], inondeg = [0, 2]\<rparr> =
     Inr \<lparr>box_begin = [Fin (-1), Fin 2], box_end = [Fin (-1/2), Fin 3],
          ideg = [], inondeg = [0, 1]\<rparr> \<and>
   invariants \<lparr>box_begin = [Fin (-1), Fin 2], box_end = [Fin (-1/2), Fin 3],
          ideg = [], inondeg = [0, 1]\<rparr> \<and>
   insert_ip \<lparr>box_begin = [Fin (-1), Fin 2], box_end = [Fin (-1/2), Fin 3],
          ideg = [], inondeg = [0, 1]\<rparr> (ArrayArg [Fin 0]) 1 =
     Inr \<lparr>box_begin = [Fin (-1), Fin 0, Fin 2], box_end = [Fin (-1/2), Fin 0, Fin 3],
          ideg = [1], inondeg = [0, 2]\<rparr>"
proof -
  let ?b = "\<lparr>box_begin = [Fin (-1), Fin 0, Fin 2], box_end = [Fin (-1/2), Fin 1, Fin 3],
          ideg = [] :: nat list, inondeg = [0, 1, 2::nat]\<rparr>"
  let ?c = "\<lparr>box_begin = [Fin (-1), Fin 0, Fin 2], box_end = [Fin (-1/2), Fin 0, Fin 3],
          ideg = [1::nat], inondeg = [0, 2::nat]\<rparr>"
  let ?s = "\<lparr>box_begin = [Fin (-1), Fin 2], box_end = [Fin (-1/2), Fin 3],
          ideg = [] :: nat list, inondeg = [0, 1::nat]\<rparr>"
  have h1: "IntervalProd [Fin (-1), Fin 0, Fin 2] [Fin (-1/2), Fin 1, Fin 3] = Inr ?b"
    by (simp add: IntervalProd_def np_all_def np_where_def fl_eq_def fl_ne_def)
  have h2: "collapse ?b [1] [Fin 0] = Inr ?c"
    by (simp add: collapse_def dim_ip_def take_idx_def set_idx_def np_any_def fl_gt_def
        IntervalProd_def np_all_def np_where_def fl_eq_def fl_ne_def)
  have h3: "squeeze ?c = Inr ?s"
    by (simp add: squeeze_def take_idx_def IntervalProd_def np_all_def np_where_def
        fl_eq_def fl_ne_def)
  have h4: "insert_ip ?s (ArrayArg [Fin 0]) 1 = Inr ?c"
    by (simp add: insert_ip_def dim_ip_def set_slice_def np_empty_def
        IntervalProd_def np_all_def np_where_def fl_eq_def fl_ne_def)
  note m = results_satisfy_invariants [of "[Fin (-1), Fin 0, Fin 2]"
      "[Fin (-1/2), Fin 1, Fin 3]" ?b ?b "[1]" "[Fin 0]" ?c ?c ?s ?s "ArrayArg [Fin 0]" 1 ?c]
  have i1: "invariants ?b" using m [THEN conjunct1] h1 by (rule mp)
  have i2: "invariants ?c" using m [THEN conjunct2, THEN conjunct1] h2 by (rule mp)
  have i3: "invariants ?s" using m [THEN conjunct2, THEN conjunct2, THEN conjunct1] h3 by (rule mp)
  have i4: "invariants ?c" using m [THEN conjunct2, THEN conjunct2, THEN conjunct2] h4 by (rule mp)
  from h1 i1 h2 i2 h3 i3 h4 show ?thesis by blast
qed

subsection \<open>Uniform sampling\<close>

lemma np_any_map: "np_any (map P xs) = (\<exists>x\<in>set xs. P x)"
  by (simp add: np_any_def list_ex_iff)

lemma wrap64_id: "- (2 ^ 63) \<le> n \<Longrightarrow> n < 2 ^ 63 \<Longrightarrow> wrap64 n = n"
  unfolding wrap64_def by (simp add: mod_pos_pos_trivial)

lemma astype_int64_id:
  assumes "\<forall>n\<in>set nn. - (2 ^ 63) \<le> n \<and> n < 2 ^ 63"
  shows "astype_int64 nn = Inr nn"
proof -
  have "\<not> list_ex (\<lambda>n. n < - (2 ^ 63) \<or> 2 ^ 64 \<le> n) nn"
    using assms by (fastforce simp: list_ex_iff)
  moreover have "map wrap64 nn = nn"
    using assms by (intro map_idI wrap64_id) simp_all
  ultimately show ?thesis by (simp add: astype_int64_def)
qed

lemma uniform_sampling_char:
  assumes "IntervalProd bg en = Inr b"
    and "\<forall>n\<in>set nn. - (2 ^ 63) \<le> n \<and> n < 2 ^ 63"
  shows "uniform_sampling b nn mp =
     (if \<exists>x\<in>set bg \<union> set en. x = PInf \<or> x = NInf then Inl UnboundedDomain
      else if length nn \<noteq> dim_ip b then Inl ShapeMismatch
      else if \<exists>n\<in>set nn. n \<le> 0 then Inl NonPositiveCount
      else if \<exists>i<dim_ip b. bg ! i = en ! i \<and> 1 < nn ! i then Inl DegenerateOversample
      else Inr \<lparr>rg_shape = nn, rg_center = midpoint b,
                rg_stride = map (\<lambda>i. fl_div (size_ip b ! i)
                                  (of_int64 (if mp then nn ! i else nn ! i - 1)))
                              [0..<dim_ip b]\<rparr>)"
proof -
  note d = IntervalProd_InrD [OF assms(1)]
  have dg: "ideg b = filter (\<lambda>i. bg ! i = en ! i) [0..<length bg]"
    by (rule ideg_constructed [OF assms(1)])
  have c1: "(np_any (map fl_isinf (box_begin b)) \<or> np_any (map fl_isinf (box_end b))) =
            (\<exists>x\<in>set bg \<union> set en. x = PInf \<or> x = NInf)"
    by (auto simp: np_any_map d(1,2) fl_isinf_def)
  have c3: "np_any (map (\<lambda>n. n \<le> 0) nn) = (\<exists>n\<in>set nn. n \<le> 0)"
    by (simp add: np_any_map)
  have c4: "np_any (map (\<lambda>n. 1 < n) (take_idx nn (ideg b))) =
            (\<exists>i<dim_ip b. bg ! i = en ! i \<and> 1 < nn ! i)"
    by (auto simp: np_any_map take_idx_def dg dim_ip_def d(1))
  have ast: "astype_int64 nn = Inr nn" by (rule astype_int64_id [OF assms(2)])
  have st: "(if mp then map2 fl_div (size_ip b) (map of_int64 nn)
             else map2 fl_div (size_ip b) (map (\<lambda>n. of_int64 (wrap64 (n - 1))) nn)) =
            map (\<lambda>i. fl_div (size_ip b ! i) (of_int64 (if mp then nn ! i else nn ! i - 1)))
                [0..<dim_ip b]"
    if "length nn = dim_ip b" and pos: "\<not> (\<exists>n\<in>set nn. n \<le> 0)"
  proof -
    have w: "wrap64 (nn ! i - 1) = nn ! i - 1" if "i < length nn" for i
    proof -
      have "nn ! i \<in> set nn" using that by simp
      then have "0 < nn ! i" "nn ! i < 2 ^ 63" using pos assms(2) by force+
      then show ?thesis by (intro wrap64_id) simp_all
    qed
    have ln: "length nn = length bg" using that by (simp add: dim_ip_def d(1))
    have le: "length en = length bg" using d(3) by simp
    have db: "dim_ip b = length bg" by (simp add: dim_ip_def d(1))
    show ?thesis
    proof (cases mp)
      case True
      then show ?thesis
        unfolding size_ip_def d(1,2) db
        by (intro nth_equalityI) (simp_all add: ln le)
    next
      case False
      then show ?thesis
        unfolding size_ip_def d(1,2) db
        by (intro nth_equalityI) (simp_all add: ln le w)
    qed
  qed
  show ?thesis
  proof (cases "length nn = dim_ip b \<and> \<not> (\<exists>n\<in>set nn. n \<le> 0)")
    case True
    then have t: "length nn = dim_ip b" "\<not> (\<exists>n\<in>set nn. n \<le> 0)" by simp_all
    show ?thesis
      unfolding uniform_sampling_def ast sum.case c1 c3 c4 Let_def st [OF t] by simp
  next
    case False
    then show ?thesis
      unfolding uniform_sampling_def ast sum.case c1 c3 c4 Let_def by auto
  qed
qed

text \<open>
  Claim C8, as amended.  \<^verbatim>\<open>uniform_sampling(num_nodes, as_midp)\<close> first converts
  \<^verbatim>\<open>num_nodes\<close> to \<^verbatim>\<open>int64\<close>.  On a box the constructor returns and for counts that
  \<^verbatim>\<open>int64\<close> holds (from \<open>-2^63\<close> to \<open>2^63 - 1\<close>), it
  fails with \<open>UnboundedDomain\<close> if a bound is infinite; otherwise with \<open>ShapeMismatch\<close> if
  the length of \<^verbatim>\<open>num_nodes\<close> is not \<^verbatim>\<open>dim\<close>; otherwise with \<open>NonPositiveCount\<close> if a
  count is \<open>\<le> 0\<close>; otherwise with \<open>DegenerateOversample\<close> if an axis with
  \<^verbatim>\<open>begin[i] == end[i]\<close> asks for more than one node; otherwise it raises nothing and calls
  the grid constructor with \<^verbatim>\<open>num_nodes\<close>, the midpoint as center and the stride
  \<^verbatim>\<open>size[i] / num_nodes[i]\<close> (midpoint sampling) or \<^verbatim>\<open>size[i] / (num_nodes[i] - 1)\<close>.
\<close>

theorem uniform_sampling_validation:
  assumes "IntervalProd bg en = Inr b"
    and "\<forall>n\<in>set nn. - (2 ^ 63) \<le> n \<and> n < 2 ^ 63"
  shows "uniform_sampling b nn mp =
     (if \<exists>x\<in>set bg \<union> set en. x = PInf \<or> x = NInf then Inl UnboundedDomain
      else if length nn \<noteq> dim_ip b then Inl ShapeMismatch
      else if \<exists>n\<in>set nn. n \<le> 0 then Inl NonPositiveCount
      else if \<exists>i<dim_ip b. bg ! i = en ! i \<and> 1 < nn ! i then Inl DegenerateOversample
      else Inr \<lparr>rg_shape = nn, rg_center = midpoint b,
                rg_stride = map (\<lambda>i. fl_div (size_ip b ! i)
                                  (of_int64 (if mp then nn ! i else nn ! i - 1)))
                              [0..<dim_ip b]\<rparr>)"
  by (rule uniform_sampling_char [OF assms])

text \<open>
  The docstring's \<^verbatim>\<open>IntervalProd([-1, 2], [-0.5, 3]).uniform_sampling([2, 5])\<close>: center
  \<open>(-0.75, 2.5)\<close> and stride \<open>(0.5, 0.25)\<close>; and a degenerate axis asked for two nodes.
\<close>

theorem uniform_sampling_validation_witness:
  "IntervalProd [Fin (-1), Fin 2] [Fin (-1/2), Fin 3] =
     Inr \<lparr>box_begin = [Fin (-1), Fin 2], box_end = [Fin (-1/2), Fin 3],
          ideg = [], inondeg = [0, Suc 0]\<rparr> \<and>
   uniform_sampling \<lparr>box_begin = [Fin (-1), Fin 2], box_end = [Fin (-1/2), Fin 3],
          ideg = [], inondeg = [0, Suc 0]\<rparr> [2, 5] False =
     Inr \<lparr>rg_shape = [2, 5], rg_center = Array [Fin (-3/4), Fin (5/2)],
          rg_stride = [Fin (1/2), Fin (1/4)]\<rparr> \<and>
   IntervalProd [Fin 0, Fin 2] [Fin 0, Fin 3] =
     Inr \<lparr>box_begin = [Fin 0, Fin 2], box_end = [Fin 0, Fin 3],
          ideg = [0], inondeg = [Suc 0]\<rparr> \<and>
   uniform_sampling \<lparr>box_begin = [Fin 0, Fin 2], box_end = [Fin 0, Fin 3],
          ideg = [0], inondeg = [Suc 0]\<rparr> [2, 5] True = Inl DegenerateOversample"
proof -
  let ?b = "\<lparr>box_begin = [Fin (-1), Fin 2], box_end = [Fin (-1/2), Fin 3],
          ideg = [] :: nat list, inondeg = [0, Suc 0]\<rparr>"
  let ?c = "\<lparr>box_begin = [Fin 0, Fin 2], box_end = [Fin 0, Fin 3],
          ideg = [0::nat], inondeg = [Suc 0]\<rparr>"
  have h: "IntervalProd [Fin (-1), Fin 2] [Fin (-1/2), Fin 3] = Inr ?b"
    by (simp add: IntervalProd_def np_all_def np_where_def fl_eq_def fl_ne_def)
  have k: "IntervalProd [Fin 0, Fin 2] [Fin 0, Fin 3] = Inr ?c"
    by (simp add: IntervalProd_def np_all_def np_where_def fl_eq_def fl_ne_def)
  have r: "\<forall>n\<in>set [2, 5::int]. - (2 ^ 63) \<le> n \<and> n < 2 ^ 63" by simp
  have 1: "uniform_sampling ?b [2, 5] False =
     Inr \<lparr>rg_shape = [2, 5], rg_center = Array [Fin (-3/4), Fin (5/2)],
          rg_stride = [Fin (1/2), Fin (1/4)]\<rparr>"
    using uniform_sampling_validation [OF h r, of False]
    by (simp add: dim_ip_def midpoint_def set_idx_def take_idx_def size_ip_def fl_sub_def
        of_int64_def Ex_less_Suc round64_values)
  have 2: "uniform_sampling ?c [2, 5] True = Inl DegenerateOversample"
    using uniform_sampling_validation [OF k r, of True]
    by (simp add: dim_ip_def Ex_less_Suc)
  from h k 1 2 show ?thesis by simp
qed

text \<open>
  Claim C8 as stated fails for a count that \<^verbatim>\<open>int64\<close> does not hold.
  \<^verbatim>\<open>IntervalProd([0], [1]).uniform_sampling([2**63], as_midp=False)\<close>: the bounds are finite,
  there is one count for the one axis, the count is positive and the axis is not degenerate, so
  the four checks of the claim pass; the conversion to \<^verbatim>\<open>int64\<close> turns the count into
  \<open>-2^63\<close> and the call fails with \<open>NonPositiveCount\<close>.
\<close>

theorem uniform_sampling_validation_counterexample:
  "IntervalProd [Fin 0] [Fin 1] =
     Inr \<lparr>box_begin = [Fin 0], box_end = [Fin 1], ideg = [], inondeg = [0]\<rparr> \<and>
   \<not> fl_isinf (Fin 0) \<and> \<not> fl_isinf (Fin 1) \<and>
   length [2 ^ 63 :: int] =
     dim_ip \<lparr>box_begin = [Fin 0], box_end = [Fin 1], ideg = [], inondeg = [0]\<rparr> \<and>
   \<not> (2 ^ 63 :: int) \<le> 0 \<and> Fin 0 \<noteq> Fin 1 \<and>
   uniform_sampling \<lparr>box_begin = [Fin 0], box_end = [Fin 1], ideg = [], inondeg = [0]\<rparr>
     [2 ^ 63] False = Inl NonPositiveCount"
  by (simp add: IntervalProd_def np_all_def np_any_def np_where_def fl_eq_def fl_ne_def
      fl_isinf_def dim_ip_def uniform_sampling_def astype_int64_def wrap64_def)

text \<open>
  Claim C10.  With \<^verbatim>\<open>as_midp\<close> false and \<^verbatim>\<open>num_nodes[i] == 1\<close> on some axis, on a box
  of \<^verbatim>\<open>float64\<close> bounds and \<^verbatim>\<open>int64\<close> counts that pass the four checks (finite bounds,
  one count per axis, positive counts, at most one node on a degenerate axis, which with
  positivity means exactly one),
  \<^verbatim>\<open>uniform_sampling\<close> raises nothing and hands the grid constructor a stride whose entry
  \<open>i\<close> is \<^verbatim>\<open>size[i] / 0\<close>: NaN on a degenerate axis and \<open>+\<infinity>\<close> on any other.
\<close>

theorem uniform_sampling_single_node:
  assumes "IntervalProd bg en = Inr b"
    and "\<forall>x\<in>set bg \<union> set en. is_f64 x \<and> \<not> fl_isinf x"
    and "length nn = dim_ip b"
    and "\<forall>n\<in>set nn. 0 < n \<and> n < 2 ^ 63"
    and "\<forall>j<dim_ip b. bg ! j = en ! j \<longrightarrow> nn ! j \<le> 1"
    and "i < dim_ip b" and "nn ! i = 1"
  shows "(\<forall>j<dim_ip b. bg ! j = en ! j \<longrightarrow> nn ! j = 1) \<and>
         (\<exists>g. uniform_sampling b nn False = Inr g \<and> rg_shape g = nn \<and>
              rg_center g = midpoint b \<and>
              rg_stride g ! i = fl_div (size_ip b ! i) (of_int64 (nn ! i - 1)) \<and>
              rg_stride g ! i = (if bg ! i = en ! i then NaN else PInf))"
proof -
  note d = IntervalProd_InrD [OF assms(1)]
  have il: "i < length bg" "i < length en" using assms(6) d(3) by (simp_all add: dim_ip_def d(1))
  have one: "\<forall>j<dim_ip b. bg ! j = en ! j \<longrightarrow> nn ! j = 1"
  proof (intro allI impI)
    fix j assume j: "j < dim_ip b" "bg ! j = en ! j"
    then have "nn ! j \<in> set nn" using assms(3) by simp
    then have "0 < nn ! j" using assms(4) by blast
    moreover have "nn ! j \<le> 1" using assms(5) j by blast
    ultimately show "nn ! j = 1" by simp
  qed
  have c1: "\<not> (\<exists>x\<in>set bg \<union> set en. x = PInf \<or> x = NInf)"
    using assms(2) by (auto simp: fl_isinf_def)
  have c3: "\<not> (\<exists>n\<in>set nn. n \<le> 0)" using assms(4) by auto
  have rg: "\<forall>n\<in>set nn. - (2 ^ 63) \<le> n \<and> n < 2 ^ 63" using assms(4) by auto
  have c4: "\<not> (\<exists>i<dim_ip b. bg ! i = en ! i \<and> 1 < nn ! i)" using assms(5) by auto
  let ?g = "\<lparr>rg_shape = nn, rg_center = midpoint b,
            rg_stride = map (\<lambda>i. fl_div (size_ip b ! i)
                                  (of_int64 (if False then nn ! i else nn ! i - 1)))
                              [0..<dim_ip b]\<rparr>"
  have g: "uniform_sampling b nn False = Inr ?g"
    using uniform_sampling_char [OF assms(1) rg, of False] c1 c3 c4 assms(3) by simp
  have s1: "rg_stride ?g ! i = fl_div (size_ip b ! i) (of_int64 (nn ! i - 1))"
    using assms(6) by simp
  have fin: "\<not> fl_isinf (bg ! i)" "\<not> fl_isinf (en ! i)"
    using assms(2) il by simp_all
  have f64: "is_f64 (bg ! i)" "is_f64 (en ! i)"
    using assms(2) il by simp_all
  have le: "fl_le (bg ! i) (en ! i)" using d(6) il by simp
  have sz: "size_ip b ! i = fl_sub (en ! i) (bg ! i)"
    using il by (simp add: size_ip_def d(1,2))
  have dv: "fl_div (fl_sub (en ! i) (bg ! i)) (Fin 0) = (if bg ! i = en ! i then NaN else PInf)"
  proof -
    from fin le obtain x y where xy: "bg ! i = Fin x" "en ! i = Fin y" "x \<le> y"
      by (cases "bg ! i"; cases "en ! i") (auto simp: fl_isinf_def)
    show ?thesis
    proof (cases "x = y")
      case True
      then show ?thesis
        unfolding xy by (simp add: f64_diff_zero fl_inf_of_def)
    next
      case False
      then have "x < y" using xy(3) by simp
      from f64_diff_positive [OF f64(1) [unfolded xy] f64(2) [unfolded xy] this]
      show ?thesis
        unfolding xy using False by (auto simp: fl_inf_of_def)
    qed
  qed
  then have s2: "rg_stride ?g ! i = (if bg ! i = en ! i then NaN else PInf)"
    using s1 sz assms(7) by (simp add: of_int64_def)
  from one g s1 s2 show ?thesis by (intro conjI exI [of _ ?g]) simp_all
qed

text \<open>
  \<^verbatim>\<open>IntervalProd([0, 2], [0, 3]).uniform_sampling([1, 1])\<close>: the stride is
  \<open>(NaN, +\<infinity>)\<close>.
\<close>

theorem uniform_sampling_single_node_witness:
  "IntervalProd [Fin 0, Fin 2] [Fin 0, Fin 3] =
     Inr \<lparr>box_begin = [Fin 0, Fin 2], box_end = [Fin 0, Fin 3],
          ideg = [0], inondeg = [Suc 0]\<rparr> \<and>
   (\<exists>g. uniform_sampling \<lparr>box_begin = [Fin 0, Fin 2], box_end = [Fin 0, Fin 3],
          ideg = [0], inondeg = [Suc 0]\<rparr> [1, 1] False = Inr g \<and>
        rg_stride g ! 0 = NaN \<and> rg_stride g ! 1 = PInf)"
proof -
  let ?c = "\<lparr>box_begin = [Fin 0, Fin 2], box_end = [Fin 0, Fin 3],
          ideg = [0::nat], inondeg = [Suc 0]\<rparr>"
  have k: "IntervalProd [Fin 0, Fin 2] [Fin 0, Fin 3] = Inr ?c"
    by (simp add: IntervalProd_def np_all_def np_where_def fl_eq_def fl_ne_def)
  have dm: "dim_ip ?c = 2" by (simp add: dim_ip_def)
  have a2: "\<forall>x\<in>set [Fin 0, Fin 2] \<union> set [Fin 0, Fin 3]. is_f64 x \<and> \<not> fl_isinf x"
    by (simp add: fl_isinf_def is_f64_def round64_values)
  have a3: "length [1, 1::int] = dim_ip ?c" by (simp add: dim_ip_def)
  have a4: "\<forall>n\<in>set [1, 1::int]. 0 < n \<and> n < 2 ^ 63" by simp
  have a5: "\<forall>j<dim_ip ?c. [Fin 0, Fin 2] ! j = [Fin 0, Fin 3] ! j \<longrightarrow> [1, 1::int] ! j \<le> 1"
    by (auto simp: dim_ip_def less_Suc_eq)
  have i0: "0 < dim_ip ?c" and i1: "1 < dim_ip ?c" by (simp_all add: dim_ip_def)
  have n0: "[1, 1::int] ! 0 = 1" and n1: "[1, 1::int] ! 1 = 1" by simp_all
  from uniform_sampling_single_node [OF k a2 a3 a4 a5 i0 n0]
  obtain g where g: "uniform_sampling ?c [1, 1] False = Inr g" "rg_stride g ! 0 = NaN"
    by auto
  from uniform_sampling_single_node [OF k a2 a3 a4 a5 i1 n1]
  obtain g' where g': "uniform_sampling ?c [1, 1] False = Inr g'" "rg_stride g' ! 1 = PInf"
    by auto
  from g g' have "g' = g" by simp
  with g g' k show ?thesis by blast
qed

subsection \<open>Distance and containment\<close>

lemma np_where_map2:
  "length xs = length ys \<Longrightarrow>
   np_where (map2 P xs ys) = filter (\<lambda>i. P (xs ! i) (ys ! i)) [0..<length xs]"
  unfolding np_where_def by (auto intro!: filter_cong)

lemma map2_map_same: "map2 f (map g xs) (map h xs) = map (\<lambda>x. f (g x) (h x)) xs"
  by (induction xs) simp_all

lemma fl_in_bounds_iff:
  "x \<noteq> NaN \<Longrightarrow> fl_le lo hi \<Longrightarrow>
   (\<not> fl_gt x hi \<and> \<not> fl_lt x lo) = (fl_le lo x \<and> fl_le x hi)"
  by (cases x; cases lo; cases hi) (auto simp: fl_gt_def)

lemma dist_ip_char:
  assumes "IntervalProd bg en = Inr b"
  shows "dist_ip N b p ord =
     (if length p \<noteq> dim_ip b then Inl DimensionMismatch
      else if \<forall>i<dim_ip b. \<not> fl_gt (p ! i) (en ! i) \<and> \<not> fl_lt (p ! i) (bg ! i) then Inr (Fin 0)
      else Inr (N (map (\<lambda>i. fl_sub (p ! i) (en ! i))
                      (filter (\<lambda>i. fl_gt (p ! i) (en ! i)) [0..<dim_ip b]) @
                   map (\<lambda>i. fl_sub (p ! i) (bg ! i))
                      (filter (\<lambda>i. fl_lt (p ! i) (bg ! i)) [0..<dim_ip b])) ord))"
proof (cases "length p = dim_ip b")
  case False
  then show ?thesis by (simp add: dist_ip_def)
next
  case True
  note d = IntervalProd_InrD [OF assms]
  have lp: "length p = length bg" "length p = length en"
    using True d(3) by (simp_all add: dim_ip_def d(1))
  have db: "dim_ip b = length p" using True by simp
  let ?il = "filter (\<lambda>i. fl_gt (p ! i) (en ! i)) [0..<length p]"
  let ?is = "filter (\<lambda>i. fl_lt (p ! i) (bg ! i)) [0..<length p]"
  have wl: "np_where (map2 fl_gt p en) = ?il"
    by (rule np_where_map2 [OF lp(2)])
  have ws: "np_where (map2 fl_lt p bg) = ?is"
    by (rule np_where_map2 [OF lp(1)])
  have ov: "map2 fl_sub (take_idx p ?il @ take_idx p ?is)
                        (take_idx en ?il @ take_idx bg ?is) =
            map (\<lambda>i. fl_sub (p ! i) (en ! i)) ?il @ map (\<lambda>i. fl_sub (p ! i) (bg ! i)) ?is"
    by (simp add: take_idx_def map2_map_same)
  show ?thesis
  proof (cases "\<forall>i<length p. \<not> fl_gt (p ! i) (en ! i) \<and> \<not> fl_lt (p ! i) (bg ! i)")
    case inb: True
    then have "?il = []" "?is = []" by (simp_all add: filter_empty_conv)
    then have "dist_ip N b p ord = Inr (Fin 0)"
      using True by (simp add: dist_ip_def Let_def d(1,2) wl ws)
    then show ?thesis using True inb by (simp add: db)
  next
    case out: False
    define il where "il = ?il"
    define ism where "ism = ?is"
    have ne: "\<not> (length il = 0 \<and> length ism = 0)"
      using out unfolding il_def ism_def by (auto simp: filter_empty_conv)
    have "dist_ip N b p ord =
      (if length il = 0 \<and> length ism = 0 then Inr (Fin 0)
       else Inr (N (map2 fl_sub (take_idx p il @ take_idx p ism)
                          (take_idx en il @ take_idx bg ism)) ord))"
      unfolding dist_ip_def Let_def d(1,2) wl ws il_def ism_def
      by (simp only: True simp_thms if_False)
    then have "dist_ip N b p ord =
      Inr (N (map2 fl_sub (take_idx p il @ take_idx p ism)
                          (take_idx en il @ take_idx bg ism)) ord)"
      using ne by (simp only: if_False)
    then have "dist_ip N b p ord =
      Inr (N (map (\<lambda>i. fl_sub (p ! i) (en ! i)) ?il @ map (\<lambda>i. fl_sub (p ! i) (bg ! i)) ?is) ord)"
      unfolding il_def ism_def ov .
    moreover have "\<not> (\<forall>i<dim_ip b. \<not> fl_gt (p ! i) (en ! i) \<and> \<not> fl_lt (p ! i) (bg ! i))"
      using out unfolding db .
    ultimately show ?thesis
      unfolding db by (simp only: simp_thms if_False)
  qed
qed

text \<open>
  Claim C4.  On a box the constructor returns, \<^verbatim>\<open>dist(point, ord)\<close> raises exactly when
  the length of the point is not \<^verbatim>\<open>dim\<close>, and what it raises is \<open>DimensionMismatch\<close>.
  When the lengths agree it returns 0.0 if no coordinate is above \<^verbatim>\<open>end[i]\<close> or below
  \<^verbatim>\<open>begin[i]\<close>, and otherwise the norm of order \<^verbatim>\<open>ord\<close> (the parameter \<open>N\<close>, applied
  to the vector and the order, which may be infinite) of the overshoot vector: the entries
  \<^verbatim>\<open>point[i] - end[i]\<close> of the axes with \<^verbatim>\<open>point[i] > end[i]\<close>, followed by the entries
  \<^verbatim>\<open>point[i] - begin[i]\<close> of the axes with \<^verbatim>\<open>point[i] < begin[i]\<close>; the other axes
  contribute nothing.  For a coordinate that is a number, not being above or below is
  \<^verbatim>\<open>begin[i] <= point[i] <= end[i]\<close>.
\<close>

theorem dist_overshoot:
  assumes "IntervalProd bg en = Inr b"
  shows "((\<exists>e. dist_ip N b p ord = Inl e) \<longleftrightarrow> length p \<noteq> dim_ip b) \<and>
         (dist_ip N b p ord = Inl DimensionMismatch \<longleftrightarrow> length p \<noteq> dim_ip b) \<and>
         (length p = dim_ip b \<longrightarrow>
            (\<forall>i<dim_ip b. p ! i \<noteq> NaN \<longrightarrow>
               (\<not> fl_gt (p ! i) (en ! i) \<and> \<not> fl_lt (p ! i) (bg ! i)) =
               (fl_le (bg ! i) (p ! i) \<and> fl_le (p ! i) (en ! i))) \<and>
            ((\<forall>i<dim_ip b. \<not> fl_gt (p ! i) (en ! i) \<and> \<not> fl_lt (p ! i) (bg ! i)) \<longrightarrow>
               dist_ip N b p ord = Inr (Fin 0)) \<and>
            (\<not> (\<forall>i<dim_ip b. \<not> fl_gt (p ! i) (en ! i) \<and> \<not> fl_lt (p ! i) (bg ! i)) \<longrightarrow>
               dist_ip N b p ord =
                 Inr (N (map (\<lambda>i. fl_sub (p ! i) (en ! i))
                            (filter (\<lambda>i. fl_gt (p ! i) (en ! i)) [0..<dim_ip b]) @
                         map (\<lambda>i. fl_sub (p ! i) (bg ! i))
                            (filter (\<lambda>i. fl_lt (p ! i) (bg ! i)) [0..<dim_ip b])) ord)))"
proof -
  note d = IntervalProd_InrD [OF assms]
  note c = dist_ip_char [OF assms, of N p ord]
  have 1: "(\<exists>e. dist_ip N b p ord = Inl e) \<longleftrightarrow> length p \<noteq> dim_ip b"
    unfolding c by simp
  have 2: "dist_ip N b p ord = Inl DimensionMismatch \<longleftrightarrow> length p \<noteq> dim_ip b"
    unfolding c by simp
  have 3: "\<forall>i<dim_ip b. p ! i \<noteq> NaN \<longrightarrow>
               (\<not> fl_gt (p ! i) (en ! i) \<and> \<not> fl_lt (p ! i) (bg ! i)) =
               (fl_le (bg ! i) (p ! i) \<and> fl_le (p ! i) (en ! i))"
    using d(6) by (simp add: dim_ip_def d(1) fl_in_bounds_iff)
  have 4: "length p = dim_ip b \<longrightarrow>
      (\<forall>i<dim_ip b. \<not> fl_gt (p ! i) (en ! i) \<and> \<not> fl_lt (p ! i) (bg ! i)) \<longrightarrow>
               dist_ip N b p ord = Inr (Fin 0)"
    unfolding c by simp
  have 5: "length p = dim_ip b \<longrightarrow>
      \<not> (\<forall>i<dim_ip b. \<not> fl_gt (p ! i) (en ! i) \<and> \<not> fl_lt (p ! i) (bg ! i)) \<longrightarrow>
               dist_ip N b p ord =
                 Inr (N (map (\<lambda>i. fl_sub (p ! i) (en ! i))
                            (filter (\<lambda>i. fl_gt (p ! i) (en ! i)) [0..<dim_ip b]) @
                         map (\<lambda>i. fl_sub (p ! i) (bg ! i))
                            (filter (\<lambda>i. fl_lt (p ! i) (bg ! i)) [0..<dim_ip b])) ord)"
  proof (intro impI)
    assume a: "length p = dim_ip b"
      and n: "\<not> (\<forall>i<dim_ip b. \<not> fl_gt (p ! i) (en ! i) \<and> \<not> fl_lt (p ! i) (bg ! i))"
    show "dist_ip N b p ord =
                 Inr (N (map (\<lambda>i. fl_sub (p ! i) (en ! i))
                            (filter (\<lambda>i. fl_gt (p ! i) (en ! i)) [0..<dim_ip b]) @
                         map (\<lambda>i. fl_sub (p ! i) (bg ! i))
                            (filter (\<lambda>i. fl_lt (p ! i) (bg ! i)) [0..<dim_ip b])) ord)"
      unfolding c using a n by auto
  qed
  from 1 2 3 4 5 show ?thesis by blast
qed

text \<open>
  The docstring's box \<^verbatim>\<open>IntervalProd([-1, 0, 2], [-0.5, 0, 3])\<close>: the point
  \<^verbatim>\<open>[-5, 3, 2]\<close> overshoots by \<open>3\<close> above on axis 1 and by \<open>-4\<close> below on axis 0; the
  point \<^verbatim>\<open>[-1, 0, 2]\<close> is at distance 0.0; a point of length 1 is rejected.
\<close>

theorem dist_overshoot_witness:
  "IntervalProd [Fin (-1), Fin 0, Fin 2] [Fin (-1/2), Fin 0, Fin 3] =
     Inr \<lparr>box_begin = [Fin (-1), Fin 0, Fin 2], box_end = [Fin (-1/2), Fin 0, Fin 3],
          ideg = [Suc 0], inondeg = [0, 2]\<rparr> \<and>
   (\<forall>N ord.
      dist_ip N \<lparr>box_begin = [Fin (-1), Fin 0, Fin 2], box_end = [Fin (-1/2), Fin 0, Fin 3],
          ideg = [Suc 0], inondeg = [0, 2]\<rparr> [Fin (-5), Fin 3, Fin 2] ord =
        Inr (N [Fin 3, Fin (-4)] ord) \<and>
      dist_ip N \<lparr>box_begin = [Fin (-1), Fin 0, Fin 2], box_end = [Fin (-1/2), Fin 0, Fin 3],
          ideg = [Suc 0], inondeg = [0, 2]\<rparr> [Fin (-1), Fin 0, Fin 2] ord = Inr (Fin 0) \<and>
      dist_ip N \<lparr>box_begin = [Fin (-1), Fin 0, Fin 2], box_end = [Fin (-1/2), Fin 0, Fin 3],
          ideg = [Suc 0], inondeg = [0, 2]\<rparr> [Fin 0] ord = Inl DimensionMismatch)"
proof -
  let ?b = "\<lparr>box_begin = [Fin (-1), Fin 0, Fin 2], box_end = [Fin (-1/2), Fin 0, Fin 3],
          ideg = [Suc 0], inondeg = [0, 2::nat]\<rparr>"
  have h: "IntervalProd [Fin (-1), Fin 0, Fin 2] [Fin (-1/2), Fin 0, Fin 3] = Inr ?b"
    by (simp add: IntervalProd_def np_all_def np_where_def fl_eq_def fl_ne_def)
  have dm: "dim_ip ?b = Suc (Suc (Suc 0))" by (simp add: dim_ip_def)
  have "dist_ip N ?b [Fin (-5), Fin 3, Fin 2] ord = Inr (N [Fin 3, Fin (-4)] ord)" for N ord
    using dist_overshoot [OF h, of N "[Fin (-5), Fin 3, Fin 2]" ord]
    unfolding dm by (simp add: fl_gt_def fl_sub_def All_less_Suc round64_values)
  moreover have "dist_ip N ?b [Fin (-1), Fin 0, Fin 2] ord = Inr (Fin 0)" for N ord
    using dist_overshoot [OF h, of N "[Fin (-1), Fin 0, Fin 2]" ord]
    unfolding dm by (simp add: fl_gt_def All_less_Suc)
  moreover have "dist_ip N ?b [Fin 0] ord = Inl DimensionMismatch" for N ord
    using dist_overshoot [OF h, of N "[Fin 0]" ord]
    unfolding dm by simp
  ultimately show ?thesis using h by blast
qed

lemma fl_le_not_gt: "fl_le x y \<Longrightarrow> \<not> fl_lt y x"
  by (cases x; cases y) auto

lemma fl_lt_irrefl: "\<not> fl_lt x x"
  by (cases x) auto

lemma contains_bounds:
  assumes "IntervalProd bg en = Inr b" and "0 < dim_ip b"
    and "is_real (bg ! 0)" and "is_real (en ! 0)"
  shows "contains is_real N b bg (Fin 0) = Inr True \<and> contains is_real N b en (Fin 0) = Inr True"
proof -
  note d = IntervalProd_InrD [OF assms(1)]
  have db: "dim_ip b = length bg" by (simp add: dim_ip_def d(1))
  have 1: "dist_ip N b bg PInf = Inr (Fin 0)"
    unfolding dist_ip_char [OF assms(1)] db
    using d(6) by (simp add: fl_gt_def fl_le_not_gt fl_lt_irrefl)
  have 2: "dist_ip N b en PInf = Inr (Fin 0)"
    unfolding dist_ip_char [OF assms(1)] db
    using d(3,6) by (simp add: fl_gt_def fl_le_not_gt fl_lt_irrefl)
  obtain x xs where bg: "bg = x # xs" using assms(2) db by (cases bg) auto
  obtain y ys where en: "en = y # ys" using assms(2) db d(3) by (cases en) auto
  have c1: "contains is_real N b bg (Fin 0) = Inr True"
    using 1 assms(3) db unfolding contains_def by (simp add: bg fl_gt_def)
  have c2: "contains is_real N b en (Fin 0) = Inr True"
    using 2 assms(4) db d(3) unfolding contains_def by (simp add: en fl_gt_def)
  from c1 c2 show ?thesis ..
qed

text \<open>
  Claim C6.  \<^verbatim>\<open>contains(begin, tol=0)\<close> and \<^verbatim>\<open>contains(end, tol=0)\<close> are true for every
  box of dimension at least 1 whose first bounds are accepted as real numbers (lemma
  \<open>contains_bounds\<close>).  The claim also covers dimension 0, and there the method does not
  return: for the box \<^verbatim>\<open>IntervalProd([], [])\<close> and the empty point the length check
  passes, \<^verbatim>\<open>point[0]\<close> is read and raises \<^verbatim>\<open>IndexError\<close>, whatever the two external
  functions are.  \<^verbatim>\<open>dist\<close> on the same input returns 0.0.
\<close>

theorem contains_dim0_raises:
  "IntervalProd [] [] = Inr \<lparr>box_begin = [], box_end = [], ideg = [], inondeg = []\<rparr> \<and>
   (\<forall>is_real N.
      contains is_real N \<lparr>box_begin = [], box_end = [], ideg = [], inondeg = []\<rparr> [] (Fin 0) =
        Inl EmptyIndexError) \<and>
   exception_of EmptyIndexError = IndexError \<and>
   (\<forall>N. dist_ip N \<lparr>box_begin = [], box_end = [], ideg = [], inondeg = []\<rparr> [] PInf =
        Inr (Fin 0))"
  by (simp add: IntervalProd_def np_all_def np_where_def contains_def dim_ip_def dist_ip_def)

subsection \<open>Equality\<close>

lemma equals_not_box: "equals b OtherObj tol = Inr False"
  by (simp add: equals_def)

lemma allclose_same_length:
  "length a = length c \<Longrightarrow>
   allclose a c r t = Inr (\<forall>i<length a. isclose (a ! i) (c ! i) r t)"
  by (simp add: allclose_def broadcast2_def list_all_length)

lemma isclose_self: "x \<noteq> NaN \<Longrightarrow> isclose x x (Fin 0) (Fin 0)"
  by (cases x) (simp_all add: isclose_def fl_sub_def fl_eq_def)

lemma equals_same_dim:
  assumes "IntervalProd bg en = Inr b" and "IntervalProd bg' en' = Inr b'"
    and "dim_ip b = dim_ip b'"
  shows "equals b (IntervalProdObj b') tol =
           Inr ((\<forall>i<dim_ip b. isclose (bg ! i) (bg' ! i) (Fin 0) tol) \<and>
                (\<forall>i<dim_ip b. isclose (en ! i) (en' ! i) (Fin 0) tol))"
proof -
  note d = IntervalProd_InrD [OF assms(1)] and d' = IntervalProd_InrD [OF assms(2)]
  have l: "length bg = length bg'" "length en = length en'" "dim_ip b = length bg"
    "length en = length bg"
    using assms(3) d(3) d'(3) by (simp_all add: dim_ip_def d(1) d'(1))
  show ?thesis
    unfolding equals_def
    by (simp add: d(1,2) d'(1,2) allclose_same_length [OF l(1)] allclose_same_length [OF l(2)]
        l(3,4) split: bool.splits)
qed

lemma equals_self:
  assumes "IntervalProd bg en = Inr b"
  shows "equals b (IntervalProdObj b) (Fin 0) = Inr True"
proof -
  note d = IntervalProd_InrD [OF assms]
  have nn: "bg ! i \<noteq> NaN \<and> en ! i \<noteq> NaN" if "i < length bg" for i
    using that d(6) fl_le_not_NaN [of "bg ! i" "en ! i"] by simp
  show ?thesis
    unfolding equals_same_dim [OF assms assms refl]
    using nn by (simp add: isclose_self dim_ip_def d(1))
qed

text \<open>
  Claim C5.  \<^verbatim>\<open>equals\<close> returns false for an argument that is not an interval product
  (lemma \<open>equals_not_box\<close>), and for two boxes of the same dimension it compares the bounds
  entry by entry with \<^verbatim>\<open>np.allclose\<close> at the absolute tolerance and relative tolerance 0
  (lemma \<open>equals_same_dim\<close>).  The claim also says that boxes of
  different dimensions are unequal.  The method has no check of the dimension, and
  \<^verbatim>\<open>np.allclose\<close> broadcasts: the interval \<^verbatim>\<open>IntervalProd([0], [1])\<close> equals the cube
  \<^verbatim>\<open>IntervalProd([0, 0, 0], [1, 1, 1])\<close> at tolerance 0, and comparing the square
  \<^verbatim>\<open>IntervalProd([0, 0], [1, 1])\<close> with that cube raises \<^verbatim>\<open>ValueError\<close>.
\<close>

theorem equals_dimension_mismatch:
  "IntervalProd [Fin 0] [Fin 1] =
     Inr \<lparr>box_begin = [Fin 0], box_end = [Fin 1], ideg = [], inondeg = [0]\<rparr> \<and>
   IntervalProd [Fin 0, Fin 0] [Fin 1, Fin 1] =
     Inr \<lparr>box_begin = [Fin 0, Fin 0], box_end = [Fin 1, Fin 1],
          ideg = [], inondeg = [0, 1]\<rparr> \<and>
   IntervalProd [Fin 0, Fin 0, Fin 0] [Fin 1, Fin 1, Fin 1] =
     Inr \<lparr>box_begin = [Fin 0, Fin 0, Fin 0], box_end = [Fin 1, Fin 1, Fin 1],
          ideg = [], inondeg = [0, 1, 2]\<rparr> \<and>
   equals \<lparr>box_begin = [Fin 0], box_end = [Fin 1], ideg = [], inondeg = [0]\<rparr>
     (IntervalProdObj \<lparr>box_begin = [Fin 0, Fin 0, Fin 0], box_end = [Fin 1, Fin 1, Fin 1],
          ideg = [], inondeg = [0, 1, 2]\<rparr>) (Fin 0) = Inr True \<and>
   equals \<lparr>box_begin = [Fin 0, Fin 0], box_end = [Fin 1, Fin 1], ideg = [], inondeg = [0, 1]\<rparr>
     (IntervalProdObj \<lparr>box_begin = [Fin 0, Fin 0, Fin 0], box_end = [Fin 1, Fin 1, Fin 1],
          ideg = [], inondeg = [0, 1, 2]\<rparr>) (Fin 0) = Inl BroadcastError \<and>
   exception_of BroadcastError = ValueError"
  by (simp add: IntervalProd_def np_all_def np_where_def fl_eq_def fl_ne_def
      equals_def allclose_def broadcast2_def isclose_def fl_sub_def)

subsection \<open>Inserting and squeezing\<close>

lemma np_where_Cons:
  "np_where (b # bs) = (if b then [0] else []) @ map Suc (np_where bs)"
proof -
  have "[0..<Suc (length bs)] = 0 # map Suc [0..<length bs]"
    by (simp only: upt_conv_Cons zero_less_Suc map_Suc_upt)
  then show ?thesis
    by (simp add: np_where_def filter_map comp_def del: upt_Suc)
qed

lemma take_idx_where:
  "length xs = length bs \<Longrightarrow> take_idx xs (np_where bs) = map fst (filter snd (zip xs bs))"
proof (induction xs bs rule: list_induct2)
  case Nil
  show ?case by (simp add: take_idx_def np_where_def)
next
  case (Cons x xs b bs)
  have "take_idx (x # xs) (map Suc (np_where bs)) = take_idx xs (np_where bs)"
    by (simp add: take_idx_def)
  then show ?case using Cons.IH
    by (simp add: np_where_Cons take_idx_def comp_def)
qed

lemma np_where_empty_iff: "np_where bs = [] \<longleftrightarrow> (\<forall>x\<in>set bs. \<not> x)"
  by (auto simp: np_where_def filter_empty_conv in_set_conv_nth)

lemma keep_all_fst:
  "length xs = length ys \<Longrightarrow> \<forall>p\<in>set (zip xs ys). P (fst p) (snd p) \<Longrightarrow>
   map fst (filter snd (zip xs (map2 P xs ys))) = xs"
  by (induction xs ys rule: list_induct2) auto

lemma keep_all_snd:
  "length xs = length ys \<Longrightarrow> \<forall>p\<in>set (zip xs ys). P (fst p) (snd p) \<Longrightarrow>
   map fst (filter snd (zip ys (map2 P xs ys))) = ys"
  by (induction xs ys rule: list_induct2) auto

lemma drop_all: "\<forall>x\<in>set zs. \<not> P x x \<Longrightarrow> filter snd (zip zs (map2 P zs zs)) = []"
  by (induction zs) auto

lemma select_append3:
  assumes "length A = length A'" "length C = length C'"
    and "\<forall>p\<in>set (zip A A'). fl_ne (fst p) (snd p)"
    and "\<forall>p\<in>set (zip C C'). fl_ne (fst p) (snd p)"
    and "\<forall>x\<in>set B. \<not> fl_ne x x"
  shows "take_idx (A @ B @ C) (np_where (map2 fl_ne (A @ B @ C) (A' @ B @ C'))) = A @ C"
    and "take_idx (A' @ B @ C') (np_where (map2 fl_ne (A @ B @ C) (A' @ B @ C'))) = A' @ C'"
proof -
  let ?m = "map2 fl_ne (A @ B @ C) (A' @ B @ C')"
  have m: "?m = map2 fl_ne A A' @ map2 fl_ne B B @ map2 fl_ne C C'"
    using assms(1) by simp
  have l1: "length (A @ B @ C) = length ?m" using assms(1,2) by simp
  have l2: "length (A' @ B @ C') = length ?m" using assms(1,2) by simp
  have z1: "zip (A @ B @ C) ?m =
            zip A (map2 fl_ne A A') @ zip B (map2 fl_ne B B) @ zip C (map2 fl_ne C C')"
    unfolding m using assms(1,2) by simp
  have z2: "zip (A' @ B @ C') ?m =
            zip A' (map2 fl_ne A A') @ zip B (map2 fl_ne B B) @ zip C' (map2 fl_ne C C')"
    unfolding m using assms(1,2) by simp
  show "take_idx (A @ B @ C) (np_where ?m) = A @ C"
    unfolding take_idx_where [OF l1] z1
    by (simp add: keep_all_fst [OF assms(1,3)] keep_all_fst [OF assms(2,4)]
        drop_all [where P = fl_ne and zs = B, OF assms(5)])
  show "take_idx (A' @ B @ C') (np_where ?m) = A' @ C'"
    unfolding take_idx_where [OF l2] z2
    by (simp add: keep_all_snd [OF assms(1,3)] keep_all_snd [OF assms(2,4)]
        drop_all [where P = fl_ne and zs = B, OF assms(5)])
qed

lemma IntervalProd_InrI_zip:
  assumes "length bg = length en" "\<forall>p\<in>set (zip bg en). fl_le (fst p) (snd p)"
  shows "IntervalProd bg en = Inr \<lparr>box_begin = bg, box_end = en,
                ideg = np_where (map2 fl_eq bg en),
                inondeg = np_where (map2 fl_ne bg en)\<rparr>"
  using assms by (auto simp: IntervalProd_def np_all_def list_all_iff)

lemma IntervalProd_InrD_zip:
  assumes "IntervalProd bg en = Inr b"
  shows "\<forall>p\<in>set (zip bg en). fl_le (fst p) (snd p)"
  using assms by (auto simp: IntervalProd_def np_all_def list_all_iff split: if_splits)

lemma insert_arrays:
  assumes "i \<le> length xs"
  shows "(if i < length xs
          then set_slice (set_slice (set_slice (np_empty (length xs + length ys)) 0 i (take i xs))
                            i (i + length ys) ys)
                 (i + length ys) (length xs + length ys) (drop i xs)
          else set_slice (set_slice (np_empty (length xs + length ys)) 0 i (take i xs))
                 i (i + length ys) ys) =
         take i xs @ ys @ drop i xs"
  using assms by (simp add: set_slice_def np_empty_def min_def)

lemma insert_ip_box:
  assumes "0 \<le> index" "index \<le> int (dim_ip b)"
    and "length (box_end b) = length (box_begin b)"
    and "length (box_end ob) = length (box_begin ob)"
  shows "insert_ip b (BoxArg ob) index =
         IntervalProd (take (nat index) (box_begin b) @ box_begin ob @ drop (nat index) (box_begin b))
                      (take (nat index) (box_end b) @ box_end ob @ drop (nat index) (box_end b))"
proof -
  have i: "nat index \<le> length (box_begin b)" "nat index \<le> length (box_end b)"
    using assms(1,2,3) by (simp_all add: dim_ip_def)
  note a1 = insert_arrays [OF i(1), of "box_begin ob"]
  note a2 = insert_arrays [OF i(2), of "box_end ob", unfolded assms(3,4)]
  show ?thesis
    unfolding insert_ip_def Let_def dim_ip_def using assms(1,2) a1 a2
    by (simp add: dim_ip_def)
qed

lemma insert_ip_array:
  "insert_ip b (ArrayArg a) index =
     (if \<not> (0 \<le> index \<and> index \<le> int (dim_ip b)) then Inl IndexOutOfRange
      else case IntervalProd a a of
        Inl e \<Rightarrow> Inl e
      | Inr ob \<Rightarrow> insert_ip b (BoxArg ob) index)"
  unfolding insert_ip_def by (cases "IntervalProd a a") simp_all

lemma fl_le_refl: "x \<noteq> NaN \<Longrightarrow> fl_le x x"
  by (cases x) auto

lemma zip_take_subset: "p \<in> set (zip (take i xs) (take i ys)) \<Longrightarrow> p \<in> set (zip xs ys)"
  unfolding take_zip [symmetric] by (rule in_set_takeD)

lemma zip_drop_subset: "p \<in> set (zip (drop i xs) (drop i ys)) \<Longrightarrow> p \<in> set (zip xs ys)"
  unfolding drop_zip [symmetric] by (rule in_set_dropD)

lemma zip_same_le: "\<forall>x\<in>set a. x \<noteq> NaN \<Longrightarrow> \<forall>p\<in>set (zip a a). fl_le (fst p) (snd p)"
proof
  fix p assume a: "\<forall>x\<in>set a. x \<noteq> NaN" and p: "p \<in> set (zip a a)"
  obtain x y where xy: "p = (x, y)" by (cases p)
  from p xy have "(x, y) \<in> set (zip a a)" by simp
  then have "x \<in> set a \<and> x = y" by (auto simp: zip_same)
  then show "fl_le (fst p) (snd p)" using a xy by (auto simp: fl_le_refl)
qed

lemma all_zip_append3:
  "length A = length A' \<Longrightarrow> \<forall>p\<in>set (zip A A'). Q p \<Longrightarrow> \<forall>p\<in>set (zip B B). Q p \<Longrightarrow>
   \<forall>p\<in>set (zip C C'). Q p \<Longrightarrow> \<forall>p\<in>set (zip (A @ B @ C) (A' @ B @ C')). Q p"
  by (simp add: ball_Un)

lemma degenerate_box:
  assumes "IntervalProd dbg den = Inr d" and "truedim d = 0"
  shows "box_end d = box_begin d \<and> (\<forall>x\<in>set (box_begin d). x \<noteq> NaN)"
proof -
  note e = IntervalProd_InrD [OF assms(1)]
  have "np_where (map2 fl_ne dbg den) = []" using assms(2) e(5) by (simp add: truedim_def)
  then have ne: "\<forall>x\<in>set (map2 fl_ne dbg den). \<not> x" by (simp only: np_where_empty_iff)
  have eq: "fl_eq (fst p) (snd p)" if "p \<in> set (zip dbg den)" for p
  proof -
    have "fl_ne (fst p) (snd p) \<in> set (map2 fl_ne dbg den)"
      using that by (force simp: image_iff)
    then show ?thesis using ne by (auto simp: fl_ne_def)
  qed
  have same: "dbg = den"
    using e(3) eq by (auto simp: list_eq_iff_zip_eq fl_eq_def)
  have "x \<noteq> NaN" if "x \<in> set dbg" for x
  proof -
    have "(x, x) \<in> set (zip dbg den)" using that same by (simp add: zip_same)
    then show ?thesis using eq [of "(x, x)"] by (simp add: fl_eq_def)
  qed
  then show ?thesis using same e(1,2) by simp
qed

text \<open>
  Claim C2, as amended.  Let \<open>b\<close> be a box the constructor returns that has no
  degenerate axis, \<open>0 \<le> index \<le> dim\<close>, and \<open>other\<close> either a box the constructor returns
  whose axes are all degenerate, or an array without NaN (a scalar is the array of length
  one).  Then \<^verbatim>\<open>b.insert(other, index)\<close> returns a box, its \<^verbatim>\<open>squeeze()\<close> returns \<open>b\<close>
  itself, and \<^verbatim>\<open>equals(b, tol=0)\<close> of that is true.
\<close>

theorem insert_squeeze_recovers:
  assumes "IntervalProd bg en = Inr b" and "ideg b = []"
    and "0 \<le> index" and "index \<le> int (dim_ip b)"
    and "(\<exists>dbg den d. IntervalProd dbg den = Inr d \<and> truedim d = 0 \<and> other = BoxArg d) \<or>
         (\<exists>a. NaN \<notin> set a \<and> other = ArrayArg a)"
  shows "\<exists>r s. insert_ip b other index = Inr r \<and> squeeze r = Inr s \<and> s = b \<and>
               equals s (IntervalProdObj b) (Fin 0) = Inr True"
proof -
  note d = IntervalProd_InrD [OF assms(1)]
  let ?i = "nat index"
  have le: "\<forall>p\<in>set (zip bg en). fl_le (fst p) (snd p)"
    by (rule IntervalProd_InrD_zip [OF assms(1)])
  have "np_where (map2 fl_eq bg en) = []" using assms(2) d(4) by simp
  then have "\<forall>x\<in>set (map2 fl_eq bg en). \<not> x" by (simp only: np_where_empty_iff)
  then have ne: "\<forall>p\<in>set (zip bg en). fl_ne (fst p) (snd p)"
    by (force simp: fl_ne_def image_iff)
  have "\<exists>ob. insert_ip b other index = insert_ip b (BoxArg ob) index \<and>
             box_end ob = box_begin ob \<and> (\<forall>x\<in>set (box_begin ob). x \<noteq> NaN)"
    using assms(5)
  proof (elim disjE exE conjE)
    fix dbg den dd
    assume "IntervalProd dbg den = Inr dd" "truedim dd = 0" "other = BoxArg dd"
    then show ?thesis using degenerate_box [of dbg den dd] by blast
  next
    fix a assume a: "NaN \<notin> set a" "other = ArrayArg a"
    have an: "\<forall>x\<in>set a. x \<noteq> NaN" using a(1) by blast
    then have al: "\<forall>p\<in>set (zip a a). fl_le (fst p) (snd p)" by (rule zip_same_le)
    let ?ob = "\<lparr>box_begin = a, box_end = a, ideg = np_where (map2 fl_eq a a),
                inondeg = np_where (map2 fl_ne a a)\<rparr>"
    have "IntervalProd a a = Inr ?ob" by (rule IntervalProd_InrI_zip [OF refl al])
    then have "insert_ip b other index = insert_ip b (BoxArg ?ob) index"
      using assms(3,4) a(2) by (simp add: insert_ip_array)
    moreover have "box_end ?ob = box_begin ?ob \<and> (\<forall>x\<in>set (box_begin ?ob). x \<noteq> NaN)"
      using an by simp
    ultimately show ?thesis by blast
  qed
  then obtain ob where ob: "insert_ip b other index = insert_ip b (BoxArg ob) index"
    "box_end ob = box_begin ob" "\<forall>x\<in>set (box_begin ob). x \<noteq> NaN" by blast
  define D where "D = box_begin ob"
  let ?rb = "take ?i bg @ D @ drop ?i bg" and ?re = "take ?i en @ D @ drop ?i en"
  have ins: "insert_ip b other index = IntervalProd ?rb ?re"
    unfolding ob(1) D_def
    using insert_ip_box [OF assms(3,4), of ob] d(3) ob(2) by (simp add: d(1,2))
  have lt: "length (take ?i bg) = length (take ?i en)" using d(3) by simp
  have ld: "length (drop ?i bg) = length (drop ?i en)" using d(3) by simp
  have le_t: "\<forall>p\<in>set (zip (take ?i bg) (take ?i en)). fl_le (fst p) (snd p)"
    using le zip_take_subset [of _ ?i bg en] by blast
  have le_d: "\<forall>p\<in>set (zip (drop ?i bg) (drop ?i en)). fl_le (fst p) (snd p)"
    using le zip_drop_subset [of _ ?i bg en] by blast
  have le_D: "\<forall>p\<in>set (zip D D). fl_le (fst p) (snd p)"
    using ob(3) unfolding D_def by (rule zip_same_le)
  have rle: "\<forall>p\<in>set (zip ?rb ?re). fl_le (fst p) (snd p)"
    by (rule all_zip_append3 [OF lt le_t le_D le_d])
  have rl: "length ?rb = length ?re" using d(3) by simp
  let ?r = "\<lparr>box_begin = ?rb, box_end = ?re, ideg = np_where (map2 fl_eq ?rb ?re),
             inondeg = np_where (map2 fl_ne ?rb ?re)\<rparr>"
  have r: "insert_ip b other index = Inr ?r"
    unfolding ins by (rule IntervalProd_InrI_zip [OF rl rle])
  have net: "\<forall>p\<in>set (zip (take ?i bg) (take ?i en)). fl_ne (fst p) (snd p)"
    using ne zip_take_subset [of _ ?i bg en] by blast
  have ned: "\<forall>p\<in>set (zip (drop ?i bg) (drop ?i en)). fl_ne (fst p) (snd p)"
    using ne zip_drop_subset [of _ ?i bg en] by blast
  have dD: "\<forall>x\<in>set D. \<not> fl_ne x x"
    using ob(3) by (simp add: fl_ne_def fl_eq_def D_def)
  note sel = select_append3 [OF lt ld net ned dD]
  have sq: "squeeze ?r = Inr b"
    unfolding squeeze_def using sel assms(1) by simp
  have eq: "equals b (IntervalProdObj b) (Fin 0) = Inr True"
    by (rule equals_self [OF assms(1)])
  from r sq eq show ?thesis by blast
qed

text \<open>
  The docstring's \<^verbatim>\<open>rbox.insert(0, 1).squeeze().equals(rbox)\<close> with
  \<^verbatim>\<open>rbox = IntervalProd([-1, 2], [-0.5, 3])\<close>.
\<close>

theorem insert_squeeze_recovers_witness:
  "IntervalProd [Fin (-1), Fin 2] [Fin (-1/2), Fin 3] =
     Inr \<lparr>box_begin = [Fin (-1), Fin 2], box_end = [Fin (-1/2), Fin 3],
          ideg = [], inondeg = [0, Suc 0]\<rparr> \<and>
   (\<exists>r s. insert_ip \<lparr>box_begin = [Fin (-1), Fin 2], box_end = [Fin (-1/2), Fin 3],
          ideg = [], inondeg = [0, Suc 0]\<rparr> (ArrayArg [Fin 0]) 1 = Inr r \<and>
      squeeze r = Inr s \<and>
      s = \<lparr>box_begin = [Fin (-1), Fin 2], box_end = [Fin (-1/2), Fin 3],
          ideg = [], inondeg = [0, Suc 0]\<rparr> \<and>
      equals s (IntervalProdObj \<lparr>box_begin = [Fin (-1), Fin 2], box_end = [Fin (-1/2), Fin 3],
          ideg = [], inondeg = [0, Suc 0]\<rparr>) (Fin 0) = Inr True)"
proof -
  let ?b = "\<lparr>box_begin = [Fin (-1), Fin 2], box_end = [Fin (-1/2), Fin 3],
          ideg = [] :: nat list, inondeg = [0, Suc 0]\<rparr>"
  have h: "IntervalProd [Fin (-1), Fin 2] [Fin (-1/2), Fin 3] = Inr ?b"
    by (simp add: IntervalProd_def np_all_def np_where_def fl_eq_def fl_ne_def)
  have a2: "ideg ?b = []" by simp
  have a3: "(0::int) \<le> 1" by simp
  have a4: "(1::int) \<le> int (dim_ip ?b)" by (simp add: dim_ip_def)
  have a5: "(\<exists>dbg den d. IntervalProd dbg den = Inr d \<and> truedim d = 0 \<and>
               ArrayArg [Fin 0] = BoxArg d) \<or>
            (\<exists>a. NaN \<notin> set a \<and> ArrayArg [Fin 0] = ArrayArg a)"
    by simp
  show ?thesis
    by (intro conjI) (rule h, rule insert_squeeze_recovers [OF h a2 a3 a4 a5])
qed

text \<open>
  Claim C2 as stated, for every box, fails on a box with a degenerate axis of its own:
  \<^verbatim>\<open>b = IntervalProd([0, 0], [1, 0])\<close>, \<^verbatim>\<open>b.insert(0, 1)\<close> is
  \<^verbatim>\<open>IntervalProd([0, 0, 0], [1, 0, 0])\<close>, its \<^verbatim>\<open>squeeze()\<close> is \<^verbatim>\<open>IntervalProd([0], [1])\<close>,
  and \<^verbatim>\<open>equals(b)\<close> of that is false.
\<close>

theorem insert_squeeze_counterexample:
  "IntervalProd [Fin 0, Fin 0] [Fin 1, Fin 0] =
     Inr \<lparr>box_begin = [Fin 0, Fin 0], box_end = [Fin 1, Fin 0],
          ideg = [Suc 0], inondeg = [0]\<rparr> \<and>
   insert_ip \<lparr>box_begin = [Fin 0, Fin 0], box_end = [Fin 1, Fin 0],
          ideg = [Suc 0], inondeg = [0]\<rparr> (ArrayArg [Fin 0]) 1 =
     Inr \<lparr>box_begin = [Fin 0, Fin 0, Fin 0], box_end = [Fin 1, Fin 0, Fin 0],
          ideg = [Suc 0, 2], inondeg = [0]\<rparr> \<and>
   squeeze \<lparr>box_begin = [Fin 0, Fin 0, Fin 0], box_end = [Fin 1, Fin 0, Fin 0],
          ideg = [Suc 0, 2], inondeg = [0]\<rparr> =
     Inr \<lparr>box_begin = [Fin 0], box_end = [Fin 1], ideg = [], inondeg = [0]\<rparr> \<and>
   equals \<lparr>box_begin = [Fin 0], box_end = [Fin 1], ideg = [], inondeg = [0]\<rparr>
     (IntervalProdObj \<lparr>box_begin = [Fin 0, Fin 0], box_end = [Fin 1, Fin 0],
          ideg = [Suc 0], inondeg = [0]\<rparr>) (Fin 0) = Inr False"
proof -
  let ?b = "\<lparr>box_begin = [Fin 0, Fin 0], box_end = [Fin 1, Fin 0],
          ideg = [Suc 0], inondeg = [0::nat]\<rparr>"
  let ?r = "\<lparr>box_begin = [Fin 0, Fin 0, Fin 0], box_end = [Fin 1, Fin 0, Fin 0],
          ideg = [Suc 0, 2], inondeg = [0::nat]\<rparr>"
  let ?s = "\<lparr>box_begin = [Fin 0], box_end = [Fin 1], ideg = [] :: nat list,
          inondeg = [0::nat]\<rparr>"
  have 1: "IntervalProd [Fin 0, Fin 0] [Fin 1, Fin 0] = Inr ?b"
    by (simp add: IntervalProd_def np_all_def np_where_def fl_eq_def fl_ne_def)
  have 0: "IntervalProd [Fin 0] [Fin 0] =
           Inr \<lparr>box_begin = [Fin 0], box_end = [Fin 0], ideg = [0], inondeg = []\<rparr>"
    by (simp add: IntervalProd_def np_all_def np_where_def fl_eq_def fl_ne_def)
  have 3: "IntervalProd [Fin 0, Fin 0, Fin 0] [Fin 1, Fin 0, Fin 0] = Inr ?r"
    by (simp add: IntervalProd_def np_all_def np_where_def fl_eq_def fl_ne_def)
  have 2: "insert_ip ?b (ArrayArg [Fin 0]) 1 = Inr ?r"
    unfolding insert_ip_array 0 using 3
    by (simp add: insert_ip_def dim_ip_def set_slice_def np_empty_def)
  have 5: "IntervalProd [Fin 0] [Fin 1] = Inr ?s"
    by (simp add: IntervalProd_def np_all_def np_where_def fl_eq_def fl_ne_def)
  have 4: "squeeze ?r = Inr ?s"
    using 5 by (simp add: squeeze_def take_idx_def)
  have 6: "equals ?s (IntervalProdObj ?b) (Fin 0) = Inr False"
    by (simp add: equals_def allclose_def broadcast2_def isclose_def fl_sub_def
        round64_values)
  from 1 2 4 6 show ?thesis by (intro conjI)
qed

subsection \<open>Collapsing\<close>

lemma set_idx_Cons: "set_idx a (i # idx) (v # vals) = set_idx (a[i := v]) idx vals"
  by (simp add: set_idx_def)

lemma set_idx_Nil: "set_idx a [] vals = a"
  by (simp add: set_idx_def)

lemma length_set_idx: "length (set_idx a idx vals) = length a"
proof (induction idx arbitrary: a vals)
  case Nil
  show ?case by (simp add: set_idx_Nil)
next
  case (Cons i idx)
  show ?case
  proof (cases vals)
    case Nil
    then show ?thesis by (simp add: set_idx_def)
  next
    case (Cons v vs)
    then show ?thesis using Cons.IH by (simp add: set_idx_Cons)
  qed
qed

lemma set_idx_other: "j \<notin> set idx \<Longrightarrow> set_idx a idx vals ! j = a ! j"
proof (induction idx arbitrary: a vals)
  case Nil
  show ?case by (simp add: set_idx_Nil)
next
  case (Cons i idx)
  show ?case
  proof (cases vals)
    case Nil
    then show ?thesis by (simp add: set_idx_def)
  next
    case (Cons v vs)
    then show ?thesis using Cons.IH [of "a[i := v]" vs] Cons.prems
      by (simp add: set_idx_Cons)
  qed
qed

lemma set_idx_hit:
  "length idx = length vals \<Longrightarrow> distinct idx \<Longrightarrow> k < length idx \<Longrightarrow> idx ! k < length a \<Longrightarrow>
   set_idx a idx vals ! (idx ! k) = vals ! k"
proof (induction idx vals arbitrary: a k rule: list_induct2)
  case Nil
  then show ?case by simp
next
  case (Cons i idx v vals)
  show ?case
  proof (cases k)
    case 0
    have "i \<notin> set idx" using Cons.prems(1) by simp
    then have "set_idx (a[i := v]) idx vals ! i = a[i := v] ! i" by (rule set_idx_other)
    then show ?thesis using 0 Cons.prems(3) by (simp add: set_idx_Cons)
  next
    case (Suc m)
    have "set_idx (a[i := v]) idx vals ! (idx ! m) = vals ! m"
      using Cons.IH [of m "a[i := v]"] Cons.prems Suc by simp
    then show ?thesis using Suc by (simp add: set_idx_Cons)
  qed
qed

lemma np_any_map2:
  assumes "length xs = length ys"
  shows "np_any (map2 P xs ys) = (\<exists>k<length xs. P (xs ! k) (ys ! k))"
proof -
  have "map2 P xs ys = map (\<lambda>k. P (xs ! k) (ys ! k)) [0..<length xs]"
    by (rule nth_equalityI) (use assms in simp_all)
  then show ?thesis by (auto simp: np_any_map)
qed

lemma collapse_char:
  assumes "IntervalProd bg en = Inr b"
  shows "collapse b ix vs =
     (if length ix \<noteq> length vs then Inl LengthMismatch
      else if \<exists>i\<in>set ix. i < 0 \<or> int (dim_ip b) \<le> i then Inl IndexOutOfRange
      else if ix = [] then Inl NonIntegerIndex
      else if \<exists>k<length ix. fl_lt (vs ! k) (bg ! nat (ix ! k)) \<or>
                             fl_gt (vs ! k) (en ! nat (ix ! k))
        then Inl ValueOutOfBounds
      else IntervalProd (set_idx bg (map nat ix) vs) (set_idx en (map nat ix) vs))"
proof (cases "length ix = length vs")
  case False
  then show ?thesis by (simp add: collapse_def)
next
  case True
  note d = IntervalProd_InrD [OF assms]
  have l: "length vs = length (take_idx bg (map nat ix))"
    "length vs = length (take_idx en (map nat ix))"
    using True by (simp_all add: take_idx_def)
  have c1: "(list_ex (\<lambda>i. i < 0) ix \<or> list_ex (\<lambda>i. int (dim_ip b) \<le> i) ix) =
            (\<exists>i\<in>set ix. i < 0 \<or> int (dim_ip b) \<le> i)"
    by (auto simp: list_ex_iff)
  have c2: "np_any (map2 fl_lt vs (take_idx bg (map nat ix))) =
            (\<exists>k<length ix. fl_lt (vs ! k) (bg ! nat (ix ! k)))"
    unfolding np_any_map2 [OF l(1)] using True by (auto simp: take_idx_def)
  have c3: "np_any (map2 fl_gt vs (take_idx en (map nat ix))) =
            (\<exists>k<length ix. fl_gt (vs ! k) (en ! nat (ix ! k)))"
    unfolding np_any_map2 [OF l(2)] using True by (auto simp: take_idx_def)
  show ?thesis
    unfolding collapse_def Let_def d(1,2) c1 c2 c3 using True by auto
qed

lemma IntervalProd_not_ValueOutOfBounds: "IntervalProd x y \<noteq> Inl ValueOutOfBounds"
  by (simp add: IntervalProd_def)

lemma outside_iff:
  "fl_le lo hi \<Longrightarrow>
   (\<not> (fl_le lo v \<and> fl_le v hi)) = (fl_lt v lo \<or> fl_gt v hi \<or> v = NaN)"
  by (cases lo; cases hi; cases v) (auto simp: fl_gt_def)

lemma collapse_arrays:
  assumes "length ix = length vs"
    and "\<forall>i\<in>set ix. 0 \<le> i \<and> i < int (length a)"
    and "distinct ix"
  shows "\<forall>k<length ix. set_idx a (map nat ix) vs ! nat (ix ! k) = vs ! k"
    and "\<forall>j. int j \<notin> set ix \<longrightarrow> set_idx a (map nat ix) vs ! j = a ! j"
proof -
  let ?ix = "map nat ix"
  have inj: "inj_on nat (set ix)"
  proof (rule inj_onI)
    fix x y assume "x \<in> set ix" "y \<in> set ix" "nat x = nat y"
    moreover from this assms(2) have "0 \<le> x" "0 \<le> y" by blast+
    ultimately show "x = y" by simp
  qed
  have dis: "distinct ?ix" using assms(3) inj by (simp add: distinct_map)
  have li: "length ?ix = length vs" using assms(1) by simp
  have rng: "?ix ! k < length a" if "k < length ix" for k
  proof -
    have "ix ! k \<in> set ix" using that by simp
    then have "0 \<le> ix ! k \<and> ix ! k < int (length a)" using assms(2) by metis
    then have "nat (ix ! k) < length a" by linarith
    then show ?thesis using that by simp
  qed
  show "\<forall>k<length ix. set_idx a (map nat ix) vs ! nat (ix ! k) = vs ! k"
  proof (intro allI impI)
    fix k assume k: "k < length ix"
    show "set_idx a (map nat ix) vs ! nat (ix ! k) = vs ! k"
      using set_idx_hit [OF li dis, of k a] k rng [OF k] by simp
  qed
  show "\<forall>j. int j \<notin> set ix \<longrightarrow> set_idx a (map nat ix) vs ! j = a ! j"
  proof (intro allI impI)
    fix j assume n: "int j \<notin> set ix"
    have "j \<notin> set ?ix"
    proof
      assume "j \<in> set ?ix"
      then obtain i where i: "i \<in> set ix" "j = nat i" by auto
      then have "int j = i" using assms(2) by auto
      then show False using i(1) n by simp
    qed
    then show "set_idx a (map nat ix) vs ! j = a ! j" by (rule set_idx_other)
  qed
qed

lemma collapse_distinct:
  assumes "IntervalProd bg en = Inr b"
    and "length ix = length vs" and "ix \<noteq> []"
    and "\<forall>i\<in>set ix. 0 \<le> i \<and> i < int (dim_ip b)"
    and "distinct ix"
  shows "collapse b ix vs =
     (if \<exists>k<length ix. fl_lt (vs ! k) (bg ! nat (ix ! k)) \<or>
                        fl_gt (vs ! k) (en ! nat (ix ! k))
        then Inl ValueOutOfBounds
      else if NaN \<in> set vs then Inl OrderingViolation
      else Inr \<lparr>box_begin = set_idx bg (map nat ix) vs, box_end = set_idx en (map nat ix) vs,
                ideg = np_where (map2 fl_eq (set_idx bg (map nat ix) vs)
                                            (set_idx en (map nat ix) vs)),
                inondeg = np_where (map2 fl_ne (set_idx bg (map nat ix) vs)
                                               (set_idx en (map nat ix) vs))\<rparr>)"
proof -
  note d = IntervalProd_InrD [OF assms(1)]
  let ?ix = "map nat ix"
  let ?B = "set_idx bg ?ix vs" and ?E = "set_idx en ?ix vs"
  have db: "dim_ip b = length bg" by (simp add: dim_ip_def d(1))
  have rb: "\<forall>i\<in>set ix. 0 \<le> i \<and> i < int (length bg)" using assms(4) db by simp
  have re: "\<forall>i\<in>set ix. 0 \<le> i \<and> i < int (length en)" using rb d(3) by simp
  note hb = collapse_arrays [OF assms(2) rb assms(5)]
  note he = collapse_arrays [OF assms(2) re assms(5)]
  have len: "length ?B = length ?E" using d(3) by (simp add: length_set_idx)
  have chk: "\<not> (\<exists>i\<in>set ix. i < 0 \<or> int (dim_ip b) \<le> i)"
    using assms(4) by auto
  have c: "collapse b ix vs =
     (if \<exists>k<length ix. fl_lt (vs ! k) (bg ! nat (ix ! k)) \<or>
                        fl_gt (vs ! k) (en ! nat (ix ! k))
        then Inl ValueOutOfBounds
      else IntervalProd ?B ?E)"
    unfolding collapse_char [OF assms(1)] using assms(2,3) chk
    by (simp only: simp_thms if_False)
  have nan: "IntervalProd ?B ?E = Inl OrderingViolation" if "NaN \<in> set vs"
  proof -
    from that obtain k where k: "k < length ix" "vs ! k = NaN"
      using assms(2) by (auto simp: in_set_conv_nth)
    have "ix ! k \<in> set ix" using k(1) by simp
    then have "0 \<le> ix ! k \<and> ix ! k < int (length bg)" using rb by metis
    then have j: "nat (ix ! k) < length ?B" unfolding length_set_idx by linarith
    have "?B ! nat (ix ! k) = NaN" using hb(1) k by simp
    then have "\<not> fl_le (?B ! nat (ix ! k)) (?E ! nat (ix ! k))" by simp
    then have "\<not> (\<forall>j<length ?B. fl_le (?B ! j) (?E ! j))" using j by blast
    then have "\<not> np_all (map2 fl_le ?B ?E)"
      using len by (simp add: np_all_def list_all_length)
    then show ?thesis using len by (simp add: IntervalProd_def)
  qed
  have ok: "IntervalProd ?B ?E =
      Inr \<lparr>box_begin = ?B, box_end = ?E, ideg = np_where (map2 fl_eq ?B ?E),
           inondeg = np_where (map2 fl_ne ?B ?E)\<rparr>" if "NaN \<notin> set vs"
  proof (rule IntervalProd_InrI [OF len], intro allI impI)
    fix j assume j: "j < length ?B"
    then have jl: "j < length bg" by (simp add: length_set_idx)
    show "fl_le (?B ! j) (?E ! j)"
    proof (cases "int j \<in> set ix")
      case True
      then obtain k where k: "k < length ix" "ix ! k = int j"
        by (auto simp: in_set_conv_nth)
      have "vs ! k \<in> set vs" using k(1) assms(2) by simp
      then have "vs ! k \<noteq> NaN" using that by metis
      then have "fl_le (vs ! k) (vs ! k)" by (rule fl_le_refl)
      then show ?thesis using hb(1) he(1) k by fastforce
    next
      case False
      then show ?thesis using hb(2) he(2) d(6) jl by simp
    qed
  qed
  show ?thesis unfolding c using nan ok by simp
qed

lemma IntervalProd_heap_sim:
  assumes "IntervalProd_heap x y h = (res, h')"
    and "x < next_free h" and "y < next_free h"
  shows "\<forall>a<next_free h. arrays h' a = arrays h a"
    and "next_free h \<le> next_free h'"
    and "case res of Inl e \<Rightarrow> IntervalProd (arrays h x) (arrays h y) = Inl e
         | Inr r' \<Rightarrow> IntervalProd (arrays h x) (arrays h y) = Inr (deref h' r') \<and>
                     next_free h \<le> begin_at r' \<and> next_free h \<le> end_at r'"
  using assms
  by (auto simp: IntervalProd_heap_def IntervalProd_def np_copy_def deref_def Let_def
      split: if_splits)

lemma collapse_heap_sim:
  assumes "collapse_heap r ix vs h = (res, h')"
    and "begin_at r < next_free h" and "end_at r < next_free h"
  shows "\<forall>a<next_free h. arrays h' a = arrays h a"
    and "case res of Inl e \<Rightarrow> collapse (deref h r) ix vs = Inl e
         | Inr r' \<Rightarrow> collapse (deref h r) ix vs = Inr (deref h' r') \<and>
                     next_free h \<le> begin_at r' \<and> next_free h \<le> end_at r'"
proof -
  let ?bg = "arrays h (begin_at r)" and ?en = "arrays h (end_at r)"
  let ?n = "next_free h"
  let ?ix = "map nat ix"
  let ?h4 = "\<lparr>arrays = (arrays h)(?n := set_idx ?bg ?ix vs, Suc ?n := set_idx ?en ?ix vs),
             next_free = Suc (Suc ?n)\<rparr>"
  let ?pass = "length ix = length vs \<and>
      \<not> (list_ex (\<lambda>i. i < 0) ix \<or> list_ex (\<lambda>i. i \<ge> int (length ?bg)) ix) \<and> ix \<noteq> [] \<and>
      \<not> np_any (map2 fl_lt vs (take_idx ?bg ?ix)) \<and>
      \<not> np_any (map2 fl_gt vs (take_idx ?en ?ix))"
  have ne: "end_at r \<noteq> ?n" "begin_at r \<noteq> ?n" using assms(2,3) by simp_all
  have pass: "collapse_heap r ix vs h = IntervalProd_heap ?n (Suc ?n) ?h4" if ?pass
    using that ne
    by (simp add: collapse_heap_def Let_def np_copy_def np_setitem_def fun_upd_twist)
  have passf: "collapse (deref h r) ix vs =
      IntervalProd (set_idx ?bg ?ix vs) (set_idx ?en ?ix vs)" if ?pass
    using that by (simp add: collapse_def Let_def deref_def dim_ip_def)
  have fail: "h' = h \<and> (\<exists>e. res = Inl e \<and> collapse (deref h r) ix vs = Inl e)" if "\<not> ?pass"
    using that assms(1)
    by (auto simp: collapse_heap_def collapse_def Let_def deref_def dim_ip_def
        split: if_splits)
  have both: "(\<forall>a<next_free h. arrays h' a = arrays h a) \<and>
     (case res of Inl e \<Rightarrow> collapse (deref h r) ix vs = Inl e
         | Inr r' \<Rightarrow> collapse (deref h r) ix vs = Inr (deref h' r') \<and>
                     next_free h \<le> begin_at r' \<and> next_free h \<le> end_at r')"
  proof (cases ?pass)
    case False
    from fail [OF False] show ?thesis by auto
  next
    case True
    have ip: "IntervalProd_heap ?n (Suc ?n) ?h4 = (res, h')"
      using pass [OF True] assms(1) by simp
    note s = IntervalProd_heap_sim [OF ip]
    have a: "\<forall>a<next_free h. arrays h' a = arrays h a"
      using s(1) by simp
    have "case res of Inl e \<Rightarrow> collapse (deref h r) ix vs = Inl e
         | Inr r' \<Rightarrow> collapse (deref h r) ix vs = Inr (deref h' r') \<and>
                     next_free h \<le> begin_at r' \<and> next_free h \<le> end_at r'"
      using s(3) unfolding passf [OF True] by (cases res) simp_all
    with a show ?thesis by simp
  qed
  from both show "\<forall>a<next_free h. arrays h' a = arrays h a" by simp
  from both show "case res of Inl e \<Rightarrow> collapse (deref h r) ix vs = Inl e
         | Inr r' \<Rightarrow> collapse (deref h r) ix vs = Inr (deref h' r') \<and>
                     next_free h \<le> begin_at r' \<and> next_free h \<le> end_at r'" by simp
qed

lemma deref_cong:
  "begin_at r < next_free h \<Longrightarrow> end_at r < next_free h \<Longrightarrow>
   \<forall>a<next_free h. arrays h' a = arrays h a \<Longrightarrow> deref h' r = deref h r"
  by (simp add: deref_def)


text \<open>
  Claim C7, as amended.  On a box the constructor returns, \<^verbatim>\<open>collapse(indices, values)\<close>
  fails with \<open>LengthMismatch\<close> when the two counts differ; otherwise with
  \<open>IndexOutOfRange\<close> when an index is outside \<open>[0, dim)\<close>; it fails with \<open>ValueOutOfBounds\<close>
  exactly when those two checks pass and some value is below \<^verbatim>\<open>begin[index]\<close> or above
  \<^verbatim>\<open>end[index]\<close>.  For one or more pairwise distinct indices that pass the first two
  checks, the call fails exactly when some value lies outside
  \<^verbatim>\<open>[begin[index], end[index]]\<close>, a NaN value being outside of every interval, and it
  then fails with a \<^verbatim>\<open>ValueError\<close>: \<open>ValueOutOfBounds\<close>, or the constructor's
  \<open>OrderingViolation\<close> when the values outside are all NaN; when every value lies inside, it
  returns a box with \<^verbatim>\<open>begin[index] = end[index] = value\<close> at each listed axis and every
  other axis unchanged.  An empty list of indices gives an \<^verbatim>\<open>IndexError\<close>.  On the store of
  arrays, the call leaves every array that existed before it as it was, the receiver's two
  arrays among them, returns what the function on values returns, and the box it returns
  holds arrays allocated during the call.
\<close>

theorem collapse_checks:
  assumes "IntervalProd bg en = Inr b"
  shows
   "(length ix \<noteq> length vs \<longrightarrow> collapse b ix vs = Inl LengthMismatch) \<and>
    (length ix = length vs \<and> (\<exists>i\<in>set ix. i < 0 \<or> int (dim_ip b) \<le> i) \<longrightarrow>
       collapse b ix vs = Inl IndexOutOfRange) \<and>
    (collapse b ix vs = Inl ValueOutOfBounds \<longleftrightarrow>
       length ix = length vs \<and> (\<forall>i\<in>set ix. 0 \<le> i \<and> i < int (dim_ip b)) \<and>
       (\<exists>k<length ix. fl_lt (vs ! k) (bg ! nat (ix ! k)) \<or>
                       fl_gt (vs ! k) (en ! nat (ix ! k)))) \<and>
    (length ix = length vs \<and> ix \<noteq> [] \<and> (\<forall>i\<in>set ix. 0 \<le> i \<and> i < int (dim_ip b)) \<and>
     distinct ix \<longrightarrow>
       ((\<exists>e. collapse b ix vs = Inl e) \<longleftrightarrow>
          (\<exists>k<length ix. \<not> (fl_le (bg ! nat (ix ! k)) (vs ! k) \<and>
                             fl_le (vs ! k) (en ! nat (ix ! k))))) \<and>
       (\<forall>e. collapse b ix vs = Inl e \<longrightarrow>
          (e = ValueOutOfBounds \<or> e = OrderingViolation) \<and> exception_of e = ValueError)) \<and>
    (length ix = length vs \<and> ix \<noteq> [] \<and> (\<forall>i\<in>set ix. 0 \<le> i \<and> i < int (dim_ip b)) \<and>
     distinct ix \<and>
     (\<forall>k<length ix. fl_le (bg ! nat (ix ! k)) (vs ! k) \<and>
                     fl_le (vs ! k) (en ! nat (ix ! k))) \<longrightarrow>
       (\<exists>r. collapse b ix vs = Inr r \<and> dim_ip r = dim_ip b \<and>
            (\<forall>k<length ix. box_begin r ! nat (ix ! k) = vs ! k \<and>
                            box_end r ! nat (ix ! k) = vs ! k) \<and>
            (\<forall>j<dim_ip b. int j \<notin> set ix \<longrightarrow>
                            box_begin r ! j = bg ! j \<and> box_end r ! j = en ! j))) \<and>
    (collapse b [] [] = Inl NonIntegerIndex \<and> exception_of NonIntegerIndex = IndexError) \<and>
    (begin_at s < next_free h \<and> end_at s < next_free h \<and> deref h s = b \<longrightarrow>
       (\<forall>res h'. collapse_heap s ix vs h = (res, h') \<longrightarrow>
          (\<forall>a<next_free h. arrays h' a = arrays h a) \<and> deref h' s = b \<and>
          (case res of
             Inl e \<Rightarrow> collapse b ix vs = Inl e
           | Inr r \<Rightarrow> collapse b ix vs = Inr (deref h' r) \<and>
                      next_free h \<le> begin_at r \<and> next_free h \<le> end_at r)))"
proof -
  note c = collapse_char [OF assms, of ix vs]
  note d = IntervalProd_InrD [OF assms]
  let ?rng = "\<forall>i\<in>set ix. 0 \<le> i \<and> i < int (dim_ip b)"
  let ?out = "\<exists>k<length ix. \<not> (fl_le (bg ! nat (ix ! k)) (vs ! k) \<and>
                                fl_le (vs ! k) (en ! nat (ix ! k)))"
  let ?lg = "\<exists>k<length ix. fl_lt (vs ! k) (bg ! nat (ix ! k)) \<or>
                           fl_gt (vs ! k) (en ! nat (ix ! k))"
  have 1: "length ix \<noteq> length vs \<longrightarrow> collapse b ix vs = Inl LengthMismatch"
    unfolding c by simp
  have 2: "length ix = length vs \<and> (\<exists>i\<in>set ix. i < 0 \<or> int (dim_ip b) \<le> i) \<longrightarrow>
       collapse b ix vs = Inl IndexOutOfRange"
    unfolding c by simp
  have 3: "collapse b ix vs = Inl ValueOutOfBounds \<longleftrightarrow> length ix = length vs \<and> ?rng \<and> ?lg"
    unfolding c using IntervalProd_not_ValueOutOfBounds
    by (auto simp: not_le not_less)
  have out: "?out \<longleftrightarrow> ?lg \<or> NaN \<in> set vs" if l: "length ix = length vs" and r: ?rng
  proof -
    have o: "(\<not> (fl_le (bg ! nat (ix ! k)) (vs ! k) \<and> fl_le (vs ! k) (en ! nat (ix ! k)))) =
             (fl_lt (vs ! k) (bg ! nat (ix ! k)) \<or> fl_gt (vs ! k) (en ! nat (ix ! k)) \<or>
              vs ! k = NaN)" if "k < length ix" for k
    proof -
      have "ix ! k \<in> set ix" using that by simp
      then have "0 \<le> ix ! k \<and> ix ! k < int (length bg)"
        using r by (simp add: dim_ip_def d(1))
      then have "nat (ix ! k) < length bg" by linarith
      then have "fl_le (bg ! nat (ix ! k)) (en ! nat (ix ! k))" using d(6) by simp
      then show ?thesis by (rule outside_iff)
    qed
    have "NaN \<in> set vs \<longleftrightarrow> (\<exists>k<length ix. vs ! k = NaN)"
      using l by (auto simp: in_set_conv_nth)
    then show ?thesis using o by auto
  qed
  have 4: "length ix = length vs \<and> ix \<noteq> [] \<and> ?rng \<and> distinct ix \<longrightarrow>
       ((\<exists>e. collapse b ix vs = Inl e) \<longleftrightarrow> ?out) \<and>
       (\<forall>e. collapse b ix vs = Inl e \<longrightarrow>
          (e = ValueOutOfBounds \<or> e = OrderingViolation) \<and> exception_of e = ValueError)"
  proof (intro impI, elim conjE)
    assume a: "length ix = length vs" "ix \<noteq> []" ?rng "distinct ix"
    note cd = collapse_distinct [OF assms a]
    note o = out [OF a(1,3)]
    show "((\<exists>e. collapse b ix vs = Inl e) \<longleftrightarrow> ?out) \<and>
       (\<forall>e. collapse b ix vs = Inl e \<longrightarrow>
          (e = ValueOutOfBounds \<or> e = OrderingViolation) \<and> exception_of e = ValueError)"
      unfolding o cd by auto
  qed
  have 5: "length ix = length vs \<and> ix \<noteq> [] \<and> ?rng \<and> distinct ix \<and>
     (\<forall>k<length ix. fl_le (bg ! nat (ix ! k)) (vs ! k) \<and>
                     fl_le (vs ! k) (en ! nat (ix ! k))) \<longrightarrow>
       (\<exists>r. collapse b ix vs = Inr r \<and> dim_ip r = dim_ip b \<and>
            (\<forall>k<length ix. box_begin r ! nat (ix ! k) = vs ! k \<and>
                            box_end r ! nat (ix ! k) = vs ! k) \<and>
            (\<forall>j<dim_ip b. int j \<notin> set ix \<longrightarrow>
                            box_begin r ! j = bg ! j \<and> box_end r ! j = en ! j))"
  proof (intro impI, elim conjE)
    assume a: "length ix = length vs" "ix \<noteq> []" ?rng "distinct ix"
      and ins: "\<forall>k<length ix. fl_le (bg ! nat (ix ! k)) (vs ! k) \<and>
                     fl_le (vs ! k) (en ! nat (ix ! k))"
    let ?B = "set_idx bg (map nat ix) vs" and ?E = "set_idx en (map nat ix) vs"
    let ?r = "\<lparr>box_begin = ?B, box_end = ?E, ideg = np_where (map2 fl_eq ?B ?E),
               inondeg = np_where (map2 fl_ne ?B ?E)\<rparr>"
    have "\<not> ?out" using ins by blast
    then have "\<not> (?lg \<or> NaN \<in> set vs)" unfolding out [OF a(1,3)] .
    then have no: "\<not> ?lg" "NaN \<notin> set vs" by blast+
    have r: "collapse b ix vs = Inr ?r"
      unfolding collapse_distinct [OF assms a] using no by (simp only: if_False)
    have rb: "\<forall>i\<in>set ix. 0 \<le> i \<and> i < int (length bg)"
      using a(3) by (simp add: dim_ip_def d(1))
    have re: "\<forall>i\<in>set ix. 0 \<le> i \<and> i < int (length en)" using rb d(3) by simp
    note hb = collapse_arrays [OF a(1) rb a(4)]
    note he = collapse_arrays [OF a(1) re a(4)]
    have p1: "dim_ip ?r = dim_ip b" by (simp add: dim_ip_def length_set_idx d(1))
    have p2: "\<forall>k<length ix. box_begin ?r ! nat (ix ! k) = vs ! k \<and>
                            box_end ?r ! nat (ix ! k) = vs ! k"
      using hb(1) he(1) by simp
    have p3: "\<forall>j<dim_ip b. int j \<notin> set ix \<longrightarrow>
                box_begin ?r ! j = bg ! j \<and> box_end ?r ! j = en ! j"
      using hb(2) he(2) by simp
    from r p1 p2 p3
    show "\<exists>r. collapse b ix vs = Inr r \<and> dim_ip r = dim_ip b \<and>
            (\<forall>k<length ix. box_begin r ! nat (ix ! k) = vs ! k \<and>
                            box_end r ! nat (ix ! k) = vs ! k) \<and>
            (\<forall>j<dim_ip b. int j \<notin> set ix \<longrightarrow>
                            box_begin r ! j = bg ! j \<and> box_end r ! j = en ! j)"
      by (intro exI [of _ ?r] conjI)
  qed
  have 6: "collapse b [] [] = Inl NonIntegerIndex" "exception_of NonIntegerIndex = IndexError"
    by (simp_all add: collapse_def)
  have 7: "begin_at s < next_free h \<and> end_at s < next_free h \<and> deref h s = b \<longrightarrow>
       (\<forall>res h'. collapse_heap s ix vs h = (res, h') \<longrightarrow>
          (\<forall>a<next_free h. arrays h' a = arrays h a) \<and> deref h' s = b \<and>
          (case res of
             Inl e \<Rightarrow> collapse b ix vs = Inl e
           | Inr r \<Rightarrow> collapse b ix vs = Inr (deref h' r) \<and>
                      next_free h \<le> begin_at r \<and> next_free h \<le> end_at r))"
  proof (intro impI allI, elim conjE)
    fix res h'
    assume a: "begin_at s < next_free h" "end_at s < next_free h" "deref h s = b"
      and run: "collapse_heap s ix vs h = (res, h')"
    note sim = collapse_heap_sim [OF run a(1,2)]
    have "deref h' s = b" using deref_cong [OF a(1,2) sim(1)] a(3) by simp
    with sim show "(\<forall>a<next_free h. arrays h' a = arrays h a) \<and> deref h' s = b \<and>
          (case res of
             Inl e \<Rightarrow> collapse b ix vs = Inl e
           | Inr r \<Rightarrow> collapse b ix vs = Inr (deref h' r) \<and>
                      next_free h \<le> begin_at r \<and> next_free h \<le> end_at r)"
      unfolding a(3) by (intro conjI)
  qed
  from 1 2 3 4 5 6 7 show ?thesis by (intro conjI)
qed


text \<open>
  The docstring's box \<^verbatim>\<open>IntervalProd([-1, 0, 2], [-0.5, 1, 3])\<close>:
  unequal counts give \<open>LengthMismatch\<close>, index 3 gives \<open>IndexOutOfRange\<close>,
  \<^verbatim>\<open>collapse([1, 2], [0, 3.5])\<close> fails with \<open>ValueOutOfBounds\<close>,
  \<^verbatim>\<open>collapse(1, nan)\<close> fails in the constructor, and
  \<^verbatim>\<open>collapse([1, 2], [0, 2.5])\<close> returns a box with the two axes collapsed and axis 0
  unchanged.  With the two arrays of the box at the addresses 0 and 1 of a store, the same
  call leaves the receiver as it was and returns a box whose arrays are new.
\<close>

theorem collapse_checks_witness:
  "IntervalProd [Fin (-1), Fin 0, Fin 2] [Fin (-1/2), Fin 1, Fin 3] =
     Inr \<lparr>box_begin = [Fin (-1), Fin 0, Fin 2], box_end = [Fin (-1/2), Fin 1, Fin 3],
          ideg = [], inondeg = [0, Suc 0, 2]\<rparr> \<and>
   collapse \<lparr>box_begin = [Fin (-1), Fin 0, Fin 2], box_end = [Fin (-1/2), Fin 1, Fin 3],
          ideg = [], inondeg = [0, Suc 0, 2]\<rparr> [1] [Fin 0, Fin 1] = Inl LengthMismatch \<and>
   collapse \<lparr>box_begin = [Fin (-1), Fin 0, Fin 2], box_end = [Fin (-1/2), Fin 1, Fin 3],
          ideg = [], inondeg = [0, Suc 0, 2]\<rparr> [3] [Fin 0] = Inl IndexOutOfRange \<and>
   collapse \<lparr>box_begin = [Fin (-1), Fin 0, Fin 2], box_end = [Fin (-1/2), Fin 1, Fin 3],
          ideg = [], inondeg = [0, Suc 0, 2]\<rparr> [1, 2] [Fin 0, Fin (7/2)] =
     Inl ValueOutOfBounds \<and>
   collapse \<lparr>box_begin = [Fin (-1), Fin 0, Fin 2], box_end = [Fin (-1/2), Fin 1, Fin 3],
          ideg = [], inondeg = [0, Suc 0, 2]\<rparr> [1] [NaN] = Inl OrderingViolation \<and>
   (\<exists>r. collapse \<lparr>box_begin = [Fin (-1), Fin 0, Fin 2], box_end = [Fin (-1/2), Fin 1, Fin 3],
          ideg = [], inondeg = [0, Suc 0, 2]\<rparr> [1, 2] [Fin 0, Fin (5/2)] = Inr r \<and>
        box_begin r ! 1 = Fin 0 \<and> box_end r ! 1 = Fin 0 \<and>
        box_begin r ! 2 = Fin (5/2) \<and> box_end r ! 2 = Fin (5/2) \<and>
        box_begin r ! 0 = Fin (-1) \<and> box_end r ! 0 = Fin (-1/2)) \<and>
   collapse \<lparr>box_begin = [Fin (-1), Fin 0, Fin 2], box_end = [Fin (-1/2), Fin 1, Fin 3],
          ideg = [], inondeg = [0, Suc 0, 2]\<rparr> [] [] = Inl NonIntegerIndex \<and>
   (\<exists>r h'. collapse_heap \<lparr>begin_at = 0, end_at = Suc 0, ideg_of = [], inondeg_of = [0, Suc 0, 2]\<rparr>
            [1, 2] [Fin 0, Fin (5/2)]
            \<lparr>arrays = (\<lambda>a. if a = 0 then [Fin (-1), Fin 0, Fin 2]
                            else if a = Suc 0 then [Fin (-1/2), Fin 1, Fin 3] else []),
             next_free = 2\<rparr> = (Inr r, h') \<and>
        arrays h' 0 = [Fin (-1), Fin 0, Fin 2] \<and>
        arrays h' (Suc 0) = [Fin (-1/2), Fin 1, Fin 3] \<and>
        2 \<le> begin_at r \<and> 2 \<le> end_at r \<and>
        collapse \<lparr>box_begin = [Fin (-1), Fin 0, Fin 2], box_end = [Fin (-1/2), Fin 1, Fin 3],
          ideg = [], inondeg = [0, Suc 0, 2]\<rparr> [1, 2] [Fin 0, Fin (5/2)] = Inr (deref h' r))"
proof -
  let ?bg = "[Fin (-1), Fin 0, Fin 2]" and ?en = "[Fin (-1/2), Fin 1, Fin 3]"
  let ?b = "\<lparr>box_begin = ?bg, box_end = ?en, ideg = [] :: nat list,
            inondeg = [0, Suc 0, 2::nat]\<rparr>"
  let ?s = "\<lparr>begin_at = 0, end_at = Suc 0, ideg_of = [] :: nat list,
            inondeg_of = [0, Suc 0, 2::nat]\<rparr>"
  let ?h = "\<lparr>arrays = (\<lambda>a. if a = 0 then ?bg else if a = Suc 0 then ?en else []),
            next_free = 2::nat\<rparr>"
  have h: "IntervalProd ?bg ?en = Inr ?b"
    by (simp add: IntervalProd_def np_all_def np_where_def fl_eq_def fl_ne_def)
  note t = collapse_checks [OF h]
  have 1: "collapse ?b [1] [Fin 0, Fin 1] = Inl LengthMismatch"
    using t [where ix = "[1]" and vs = "[Fin 0, Fin 1]", THEN conjunct1] by simp
  have 2: "collapse ?b [3] [Fin 0] = Inl IndexOutOfRange"
    using t [where ix = "[3]" and vs = "[Fin 0]", THEN conjunct2, THEN conjunct1]
    by (simp add: dim_ip_def)
  have "\<exists>k<length [1, 2::int]. fl_lt ([Fin 0, Fin (7/2)] ! k) (?bg ! nat ([1, 2] ! k)) \<or>
                       fl_gt ([Fin 0, Fin (7/2)] ! k) (?en ! nat ([1, 2] ! k))"
    by (rule exI [of _ 1]) (simp add: fl_gt_def)
  then have 3: "collapse ?b [1, 2] [Fin 0, Fin (7/2)] = Inl ValueOutOfBounds"
    using t [where ix = "[1, 2]" and vs = "[Fin 0, Fin (7/2)]", THEN conjunct2,
        THEN conjunct2, THEN conjunct1]
    by (simp add: dim_ip_def)
  have preN: "length [1::int] = length [NaN] \<and> [1::int] \<noteq> [] \<and>
     (\<forall>i\<in>set [1::int]. 0 \<le> i \<and> i < int (dim_ip ?b)) \<and> distinct [1::int]"
    by (simp add: dim_ip_def)
  note n = t [where ix = "[1]" and vs = "[NaN]", THEN conjunct2, THEN conjunct2,
        THEN conjunct2, THEN conjunct1, THEN mp, OF preN]
  from n [THEN conjunct1] obtain e where e: "collapse ?b [1] [NaN] = Inl e" by auto
  from n [THEN conjunct2] e have e2: "e = ValueOutOfBounds \<or> e = OrderingViolation" by blast
  have "collapse ?b [1] [NaN] \<noteq> Inl ValueOutOfBounds"
    using t [where ix = "[1]" and vs = "[NaN]", THEN conjunct2, THEN conjunct2, THEN conjunct1]
    by (simp add: fl_gt_def)
  with e e2 have 4: "collapse ?b [1] [NaN] = Inl OrderingViolation" by auto
  have pre: "length [1, 2::int] = length [Fin 0, Fin (5/2)] \<and> [1, 2::int] \<noteq> [] \<and>
     (\<forall>i\<in>set [1, 2::int]. 0 \<le> i \<and> i < int (dim_ip ?b)) \<and> distinct [1, 2::int] \<and>
     (\<forall>k<length [1, 2::int]. fl_le (?bg ! nat ([1, 2] ! k)) ([Fin 0, Fin (5/2)] ! k) \<and>
                     fl_le ([Fin 0, Fin (5/2)] ! k) (?en ! nat ([1, 2] ! k)))"
    by (simp add: dim_ip_def All_less_Suc)
  from t [where ix = "[1, 2]" and vs = "[Fin 0, Fin (5/2)]", THEN conjunct2,
        THEN conjunct2, THEN conjunct2, THEN conjunct2, THEN conjunct1, THEN mp, OF pre]
  obtain r where r: "collapse ?b [1, 2] [Fin 0, Fin (5/2)] = Inr r"
    "\<forall>k<length [1, 2::int]. box_begin r ! nat ([1, 2] ! k) = [Fin 0, Fin (5/2)] ! k \<and>
                            box_end r ! nat ([1, 2] ! k) = [Fin 0, Fin (5/2)] ! k"
    "\<forall>j<dim_ip ?b. int j \<notin> set [1, 2::int] \<longrightarrow>
                            box_begin r ! j = ?bg ! j \<and> box_end r ! j = ?en ! j"
    by blast
  from r(2) have a: "box_begin r ! 1 = Fin 0 \<and> box_end r ! 1 = Fin 0 \<and>
        box_begin r ! 2 = Fin (5/2) \<and> box_end r ! 2 = Fin (5/2)"
    by (simp add: All_less_Suc)
  from r(3) have c: "box_begin r ! 0 = Fin (-1) \<and> box_end r ! 0 = Fin (-1/2)"
    by (simp add: dim_ip_def)
  from r(1) a c have 5: "\<exists>r. collapse ?b [1, 2] [Fin 0, Fin (5/2)] = Inr r \<and>
        box_begin r ! 1 = Fin 0 \<and> box_end r ! 1 = Fin 0 \<and>
        box_begin r ! 2 = Fin (5/2) \<and> box_end r ! 2 = Fin (5/2) \<and>
        box_begin r ! 0 = Fin (-1) \<and> box_end r ! 0 = Fin (-1/2)"
    by blast
  have 6: "collapse ?b [] [] = Inl NonIntegerIndex"
    by (rule t [THEN conjunct2, THEN conjunct2, THEN conjunct2, THEN conjunct2,
          THEN conjunct2, THEN conjunct1, THEN conjunct1])
  have pre7: "begin_at ?s < next_free ?h \<and> end_at ?s < next_free ?h \<and> deref ?h ?s = ?b"
    by (simp add: deref_def)
  obtain res h' where run: "collapse_heap ?s [1, 2] [Fin 0, Fin (5/2)] ?h = (res, h')"
    by (rule prod.exhaust)
  note u = t [where ix = "[1, 2]" and vs = "[Fin 0, Fin (5/2)]" and s = ?s and h = ?h,
      THEN conjunct2, THEN conjunct2, THEN conjunct2, THEN conjunct2, THEN conjunct2,
      THEN conjunct2, THEN mp, OF pre7, THEN spec, THEN spec, THEN mp, OF run]
  have u1: "arrays h' 0 = ?bg" "arrays h' (Suc 0) = ?en"
    using u [THEN conjunct1] by simp_all
  obtain r' where r': "res = Inr r'" "collapse ?b [1, 2] [Fin 0, Fin (5/2)] = Inr (deref h' r')"
    "2 \<le> begin_at r'" "2 \<le> end_at r'"
    using u [THEN conjunct2, THEN conjunct2] r(1) by (cases res) simp_all
  from run r' u1 have 7: "\<exists>r h'. collapse_heap ?s [1, 2] [Fin 0, Fin (5/2)] ?h = (Inr r, h') \<and>
        arrays h' 0 = ?bg \<and> arrays h' (Suc 0) = ?en \<and>
        2 \<le> begin_at r \<and> 2 \<le> end_at r \<and>
        collapse ?b [1, 2] [Fin 0, Fin (5/2)] = Inr (deref h' r)"
    by blast
  from h 1 2 3 4 5 6 7 show ?thesis by (intro conjI)
qed

text \<open>
  Claim C7 as stated fails when all its checks pass and the indices are not one or more
  distinct axes.  With a repeated index one axis cannot hold both listed values:
  \<^verbatim>\<open>collapse([1, 1], [0, 0.5])\<close> passes every check and returns the box with
  \<^verbatim>\<open>begin[1] = end[1] = 0.5\<close>, not the listed value 0 of the first pair.  With no index at
  all, \<^verbatim>\<open>collapse([], [])\<close> passes every check and returns no box.
\<close>

theorem collapse_counterexample:
  "collapse \<lparr>box_begin = [Fin (-1), Fin 0, Fin 2], box_end = [Fin (-1/2), Fin 1, Fin 3],
          ideg = [], inondeg = [0, Suc 0, 2]\<rparr> [1, 1] [Fin 0, Fin (1/2)] =
     Inr \<lparr>box_begin = [Fin (-1), Fin (1/2), Fin 2], box_end = [Fin (-1/2), Fin (1/2), Fin 3],
          ideg = [Suc 0], inondeg = [0, 2]\<rparr> \<and>
   box_begin \<lparr>box_begin = [Fin (-1), Fin (1/2), Fin 2], box_end = [Fin (-1/2), Fin (1/2), Fin 3],
          ideg = [Suc 0], inondeg = [0, 2]\<rparr> ! nat ([1, 1] ! 0) \<noteq> [Fin 0, Fin (1/2)] ! 0 \<and>
   collapse \<lparr>box_begin = [Fin (-1), Fin 0, Fin 2], box_end = [Fin (-1/2), Fin 1, Fin 3],
          ideg = [], inondeg = [0, Suc 0, 2]\<rparr> [] [] = Inl NonIntegerIndex"
proof -
  let ?b = "\<lparr>box_begin = [Fin (-1), Fin 0, Fin 2], box_end = [Fin (-1/2), Fin 1, Fin 3],
            ideg = [] :: nat list, inondeg = [0, Suc 0, 2::nat]\<rparr>"
  let ?r = "\<lparr>box_begin = [Fin (-1), Fin (1/2), Fin 2],
            box_end = [Fin (-1/2), Fin (1/2), Fin 3], ideg = [Suc 0], inondeg = [0, 2::nat]\<rparr>"
  have i: "IntervalProd [Fin (-1), Fin (1/2), Fin 2] [Fin (-1/2), Fin (1/2), Fin 3] = Inr ?r"
    by (simp add: IntervalProd_def np_all_def np_where_def fl_eq_def fl_ne_def)
  have 1: "collapse ?b [1, 1] [Fin 0, Fin (1/2)] = Inr ?r"
    using i by (simp add: collapse_def dim_ip_def take_idx_def set_idx_def np_any_def fl_gt_def)
  have 2: "box_begin ?r ! nat ([1, 1] ! 0) \<noteq> [Fin 0, Fin (1/2)] ! 0" by simp
  have 3: "collapse ?b [] [] = Inl NonIntegerIndex"
    by (simp add: collapse_def)
  from 1 2 3 show ?thesis by (intro conjI)
qed

end
